theory Spec2Isabelle
  imports Main "HOL-Library.Monad_Syntax"
begin

section \<open>Data model\<close>

text \<open>
  The C++ struct \<open>SATproblem\<close>: the number of variables and the clauses, each clause a
  vector of nonzero signed literals. The values of type \<open>int\<close> of the source are modelled
  as mathematical integers. The parser only yields values that fit the 32-bit type, and the
  only arithmetic of the search that can leave its range is \<open>numVars + 1\<close> for the largest
  \<open>int\<close>, \<open>2147483647\<close>: signed overflow is undefined behaviour, and the model has no
  result where the source computes it (in \<open>findPureLiterals\<close>, which every call of the
  driver reaches before it increments a variable index).
\<close>

record SATproblem =
  numVars :: int
  clauses :: "int list list"

text \<open>
  Indexing a \<open>std::vector\<close> outside its bounds is undefined behaviour. Every model
  function that indexes a vector returns an \<open>option\<close>, and \<open>None\<close> stands for an
  execution that performs such an access.
\<close>

definition vec_get :: "'a list \<Rightarrow> int \<Rightarrow> 'a option" where
  "vec_get v i = (if 0 \<le> i \<and> i < int (length v) then Some (v ! nat i) else None)"

definition vec_set :: "'a list \<Rightarrow> int \<Rightarrow> 'a \<Rightarrow> 'a list option" where
  "vec_set v i x = (if 0 \<le> i \<and> i < int (length v) then Some (v[nat i := x]) else None)"

text \<open>The test \<open>(lit > 0 && value > 0) || (lit < 0 && value < 0)\<close> of the source.\<close>

definition litTrue :: "int \<Rightarrow> int \<Rightarrow> bool" where
  "litTrue lit val \<longleftrightarrow> (lit > 0 \<and> val > 0) \<or> (lit < 0 \<and> val < 0)"

section \<open>Reading the problem\<close>

text \<open>
  The input is the sequence of lines that successive calls of \<open>getline\<close> return.
  \<open>readInt\<close> is the extraction \<open>iss >> lit\<close> of an \<open>int\<close> from the rest of a line:
  leading white space is skipped, then an optional sign and a nonempty run of decimal
  digits are read. \<open>Extracted v rest\<close> is a successful extraction. \<open>Failed x\<close> is a
  failed one, after which the stream stays failed; \<open>x\<close> is the value the extraction
  stores in its target, if it stores one: nothing at the end of the line, \<open>0\<close> when no
  digits are found, and the nearest machine integer when the number does not fit.
\<close>

definition isspace :: "char \<Rightarrow> bool" where
  "isspace c \<longleftrightarrow> c \<in> set [CHR '' '', CHR 0x09, CHR 0x0A, CHR 0x0B, CHR 0x0C, CHR 0x0D]"

definition isdigit :: "char \<Rightarrow> bool" where
  "isdigit c \<longleftrightarrow> c \<in> set ''0123456789''"

definition digitVal :: "char \<Rightarrow> int" where
  "digitVal c = int (of_char c) - 48"

datatype extraction = Extracted int string | Failed "int option"

definition readInt :: "string \<Rightarrow> extraction" where
  "readInt s =
     (let s1 = dropWhile isspace s;
          negative = (s1 \<noteq> [] \<and> hd s1 = CHR ''-'');
          s2 = (if s1 \<noteq> [] \<and> (hd s1 = CHR ''-'' \<or> hd s1 = CHR ''+'') then tl s1 else s1);
          ds = takeWhile isdigit s2;
          n = foldl (\<lambda>acc d. 10 * acc + digitVal d) 0 ds;
          v = (if negative then - n else n)
      in if s1 = [] then Failed None
         else if ds = [] then Failed (Some 0)
         else if v > 2147483647 then Failed (Some 2147483647)
         else if v < - 2147483648 then Failed (Some (- 2147483648))
         else Extracted v (dropWhile isdigit s2))"

text \<open>The extraction of a white-space delimited word, \<open>iss >> p\<close> and \<open>iss >> cnf\<close>.\<close>

definition readWord :: "string \<Rightarrow> (string \<times> string) option" where
  "readWord s =
     (let s1 = dropWhile isspace s
      in if s1 = [] then None
         else Some (takeWhile (\<lambda>c. \<not> isspace c) s1, dropWhile (\<lambda>c. \<not> isspace c) s1))"

text \<open>
  The header line \<open>iss >> p >> cnf >> problem.numVars >> numClauses\<close>: the new value of
  \<open>numVars\<close>, given the old one. The clause count is read and never used.
\<close>

definition parseHeader :: "string \<Rightarrow> int \<Rightarrow> int" where
  "parseHeader line nv =
     (case readWord line of
        None \<Rightarrow> nv
      | Some (p, r1) \<Rightarrow>
          (case readWord r1 of
             None \<Rightarrow> nv
           | Some (cnf, r2) \<Rightarrow>
               (case readInt r2 of
                  Extracted v r3 \<Rightarrow> v
                | Failed (Some v) \<Rightarrow> v
                | Failed None \<Rightarrow> nv)))"

lemma readInt_shorter: "readInt s = Extracted v rest \<Longrightarrow> length rest < length s"
proof -
  assume a: "readInt s = Extracted v rest"
  define s1 where "s1 = dropWhile isspace s"
  define s2 where "s2 = (if s1 \<noteq> [] \<and> (hd s1 = CHR ''-'' \<or> hd s1 = CHR ''+'') then tl s1 else s1)"
  have r: "rest = dropWhile isdigit s2" and d: "takeWhile isdigit s2 \<noteq> []"
    using a unfolding readInt_def Let_def s1_def s2_def by (auto split: if_splits)
  have "length (takeWhile isdigit s2) + length (dropWhile isdigit s2) = length s2"
    by (metis length_append takeWhile_dropWhile_id)
  then have "length rest < length s2" using r d by (cases "takeWhile isdigit s2") auto
  moreover have "length s2 \<le> length s1" by (simp add: s2_def)
  moreover have "length s1 \<le> length s" unfolding s1_def by (rule length_dropWhile_le)
  ultimately show ?thesis by simp
qed

text \<open>
  The loop \<open>while (iss >> lit && lit != 0)\<close> over a clause line. It returns the updated
  \<open>numVars\<close> and the literals read. \<open>abs\<close> of the least machine integer is undefined.
\<close>

function readClause :: "string \<Rightarrow> int \<Rightarrow> int list \<Rightarrow> (int \<times> int list) option" where
  "readClause s nv clause =
     (case readInt s of
        Failed x \<Rightarrow> Some (nv, clause)
      | Extracted lit rest \<Rightarrow>
          if lit = 0 then Some (nv, clause)
          else if lit = - 2147483648 then None
          else readClause rest (if \<bar>lit\<bar> > nv then \<bar>lit\<bar> else nv) (clause @ [lit]))"
  by pat_completeness auto
termination
  by (relation "measure (\<lambda>(s, nv, clause). length s)") (auto dest: readInt_shorter)

declare readClause.simps [simp del]

text \<open>
  The tautology scan \<open>for (size_t i = 0; i < clause.size() - 1; i++)\<close>. The bound is
  computed in the unsigned 64-bit type \<open>size_t\<close>, so it wraps around for an empty clause;
  the loop body reads \<open>clause[i]\<close> and \<open>clause[i+1]\<close>.
\<close>

function tautologyScan :: "int list \<Rightarrow> int \<Rightarrow> int \<Rightarrow> bool option" where
  "tautologyScan clause bound i =
     (if i < bound then do {
        x \<leftarrow> vec_get clause i;
        y \<leftarrow> vec_get clause (i + 1);
        if x = - y then Some True else tautologyScan clause bound (i + 1)
      } else Some False)"
  by pat_completeness auto
termination
  by (relation "measure (\<lambda>(clause, bound, i). nat (bound - i))") auto

declare tautologyScan.simps [simp del]

definition isTautology :: "int list \<Rightarrow> bool option" where
  "isTautology clause = tautologyScan clause ((int (length clause) - 1) mod 2 ^ 64) 0"

text \<open>
  One iteration of the \<open>getline\<close> loop of \<open>parseDIMACS\<close>, on the problem built so far and
  the flag \<open>headerFound\<close>. \<open>std::sort\<close> followed by \<open>std::unique\<close> and \<open>erase\<close> is
  \<open>remdups_adj (sort raw)\<close>.
\<close>

fun parseLine :: "string \<Rightarrow> SATproblem \<times> bool \<Rightarrow> (SATproblem \<times> bool) option" where
  "parseLine line (problem, headerFound) =
     (if line = [] then Some (problem, headerFound)
      else if hd line = CHR ''c'' then Some (problem, headerFound)
      else if hd line = CHR ''p'' then
        Some (problem\<lparr>numVars := parseHeader line (numVars problem)\<rparr>, True)
      else if \<not> headerFound then Some (problem, headerFound)
      else do {
        (nv, raw) \<leftarrow> readClause line (numVars problem) [];
        let clause = remdups_adj (sort raw);
        tautology \<leftarrow> isTautology clause;
        Some (problem\<lparr>numVars := nv,
                clauses := (if \<not> tautology then clauses problem @ [clause] else clauses problem)\<rparr>,
              headerFound)
      })"

fun parseLines :: "string list \<Rightarrow> SATproblem \<times> bool \<Rightarrow> (SATproblem \<times> bool) option" where
  "parseLines [] st = Some st"
| "parseLines (line # rest) st = do { st' \<leftarrow> parseLine line st; parseLines rest st' }"

definition parseDIMACS :: "string list \<Rightarrow> SATproblem option" where
  "parseDIMACS input =
     map_option fst (parseLines input (\<lparr>numVars = 0, clauses = []\<rparr>, False))"

section \<open>Conflict detector\<close>

text \<open>
  The inner loop of \<open>checkConflict\<close> over one clause; the result is the value of
  \<open>!satisfied && !undecided\<close> when the loop is left.
\<close>

fun clauseFalsified :: "int list \<Rightarrow> int list \<Rightarrow> bool option" where
  "clauseFalsified a [] = Some True"
| "clauseFalsified a (lit # rest) =
     (if \<bar>lit\<bar> > int (length a) then Some False
      else do {
        val \<leftarrow> vec_get a (\<bar>lit\<bar> - 1);
        if val = 0 then Some False
        else if litTrue lit val then Some False
        else clauseFalsified a rest
      })"

fun conflictIn :: "int list \<Rightarrow> int list list \<Rightarrow> bool option" where
  "conflictIn a [] = Some False"
| "conflictIn a (c # cs) =
     do {
       f \<leftarrow> clauseFalsified a c;
       if f then Some True else conflictIn a cs
     }"

definition checkConflict :: "SATproblem \<Rightarrow> int list \<Rightarrow> bool option" where
  "checkConflict p a = conflictIn a (clauses p)"

section \<open>Unit propagator\<close>

text \<open>
  The inner loop of \<open>findUnitClauses\<close>, started with \<open>unassignedLit = 0\<close>; the result is
  the pair \<open>(unassignedLit, satisfied)\<close> when the loop is left.
\<close>

fun unitScan :: "int list \<Rightarrow> int \<Rightarrow> int list \<Rightarrow> (int \<times> bool) option" where
  "unitScan a u [] = Some (u, False)"
| "unitScan a u (lit # rest) =
     do {
       val \<leftarrow> vec_get a (\<bar>lit\<bar> - 1);
       if litTrue lit val then Some (u, True)
       else if val = 0 then (if u \<noteq> 0 then Some (0, False) else unitScan a lit rest)
       else unitScan a u rest
     }"

fun unitClauses :: "int list \<Rightarrow> int list list \<Rightarrow> int list \<Rightarrow> int list option" where
  "unitClauses a [] unitLiterals = Some unitLiterals"
| "unitClauses a (c # cs) unitLiterals =
     do {
       (u, satisfied) \<leftarrow> unitScan a 0 c;
       unitClauses a cs (if \<not> satisfied \<and> u \<noteq> 0 then unitLiterals @ [u] else unitLiterals)
     }"

definition findUnitClauses :: "SATproblem \<Rightarrow> int list \<Rightarrow> int list option" where
  "findUnitClauses p a = unitClauses a (clauses p) []"

section \<open>Pure-literal eliminator\<close>

text \<open>The first inner loop of \<open>findPureLiterals\<close>: is some literal of the clause satisfied?\<close>

fun clauseSat :: "int list \<Rightarrow> int list \<Rightarrow> bool option" where
  "clauseSat a [] = Some False"
| "clauseSat a (lit # rest) =
     do {
       val \<leftarrow> vec_get a (\<bar>lit\<bar> - 1);
       if litTrue lit val then Some True else clauseSat a rest
     }"

text \<open>The second inner loop: mark the polarity of every unassigned occurrence.\<close>

fun markClause :: "int list \<Rightarrow> int list \<Rightarrow> bool list \<times> bool list \<Rightarrow> (bool list \<times> bool list) option" where
  "markClause a [] (posAppears, negAppears) = Some (posAppears, negAppears)"
| "markClause a (lit # rest) (posAppears, negAppears) =
     do {
       val \<leftarrow> vec_get a (\<bar>lit\<bar> - 1);
       if val = 0 then
         (if lit > 0 then do {
            pos' \<leftarrow> vec_set posAppears \<bar>lit\<bar> True;
            markClause a rest (pos', negAppears)
          } else do {
            neg' \<leftarrow> vec_set negAppears \<bar>lit\<bar> True;
            markClause a rest (posAppears, neg')
          })
       else markClause a rest (posAppears, negAppears)
     }"

fun markClauses :: "int list \<Rightarrow> int list list \<Rightarrow> bool list \<times> bool list \<Rightarrow> (bool list \<times> bool list) option" where
  "markClauses a [] pn = Some pn"
| "markClauses a (c # cs) pn =
     do {
       satisfied \<leftarrow> clauseSat a c;
       if \<not> satisfied then do { pn' \<leftarrow> markClause a c pn; markClauses a cs pn' }
       else markClauses a cs pn
     }"

text \<open>The final loop \<open>for (var = 1; var <= numVars; var++)\<close>, over the list of its indices.\<close>

fun collectPure :: "int list \<Rightarrow> bool list \<Rightarrow> bool list \<Rightarrow> int list \<Rightarrow> int list \<Rightarrow> int list option" where
  "collectPure a posAppears negAppears [] pureLiterals = Some pureLiterals"
| "collectPure a posAppears negAppears (var # vars) pureLiterals =
     do {
       val \<leftarrow> vec_get a (var - 1);
       if val = 0 then do {
         ps \<leftarrow> vec_get posAppears var;
         ng \<leftarrow> vec_get negAppears var;
         collectPure a posAppears negAppears vars
           (if ps \<and> \<not> ng then pureLiterals @ [var]
            else if \<not> ps \<and> ng then pureLiterals @ [- var]
            else pureLiterals)
       } else collectPure a posAppears negAppears vars pureLiterals
     }"

text \<open>
  The size \<open>problem.numVars + 1\<close> of the two flag vectors, and the last increment
  \<open>var++\<close> of the final loop, are computed in the 32-bit type \<open>int\<close>: for
  \<open>numVars = 2147483647\<close> the addition overflows and the execution has no defined
  result. When \<open>numVars + 1\<close> is negative the flag vectors have no element that can be
  indexed.
\<close>

definition findPureLiterals :: "SATproblem \<Rightarrow> int list \<Rightarrow> int list option" where
  "findPureLiterals p a =
     (if numVars p + 1 > 2147483647 then None
      else do {
        (posAppears, negAppears) \<leftarrow>
          markClauses a (clauses p)
            (replicate (nat (numVars p + 1)) False, replicate (nat (numVars p + 1)) False);
        collectPure a posAppears negAppears [1 .. numVars p] []
      })"

section \<open>The recursive driver\<close>

text \<open>Undoing the recorded assignments: \<open>assignment[p.first] = p.second\<close> for each pair.\<close>

fun restore :: "(int \<times> int) list \<Rightarrow> int list \<Rightarrow> int list option" where
  "restore [] a = Some a"
| "restore ((i, v) # saved) a = do { a' \<leftarrow> vec_set a i v; restore saved a' }"

text \<open>
  The unit-propagation loop of \<open>solve\<close>. \<open>Inl a\<close> is the early \<open>return false\<close> with the
  assignment left behind; \<open>Inr (a, saved)\<close> is the normal exit of the loop.
\<close>

fun unitLoop :: "SATproblem \<Rightarrow> int list \<Rightarrow> int list \<Rightarrow> (int \<times> int) list
    \<Rightarrow> (int list + int list \<times> (int \<times> int) list) option" where
  "unitLoop p [] a saved = Some (Inr (a, saved))"
| "unitLoop p (lit # rest) a saved =
     do {
       val \<leftarrow> vec_get a (\<bar>lit\<bar> - 1);
       if val = 0 then do {
         a' \<leftarrow> vec_set a (\<bar>lit\<bar> - 1) (if lit > 0 then 1 else - 1);
         conflict \<leftarrow> checkConflict p a';
         if conflict then do {
           r \<leftarrow> restore (saved @ [(\<bar>lit\<bar> - 1, 0)]) a';
           Some (Inl r)
         } else unitLoop p rest a' (saved @ [(\<bar>lit\<bar> - 1, 0)])
       } else unitLoop p rest a saved
     }"

text \<open>The pure-literal loop of \<open>solve\<close>.\<close>

fun pureLoop :: "int list \<Rightarrow> int list \<Rightarrow> (int \<times> int) list \<Rightarrow> (int list \<times> (int \<times> int) list) option" where
  "pureLoop [] a saved = Some (a, saved)"
| "pureLoop (lit # rest) a saved =
     do {
       val \<leftarrow> vec_get a (\<bar>lit\<bar> - 1);
       if val = 0 then do {
         a' \<leftarrow> vec_set a (\<bar>lit\<bar> - 1) (if lit > 0 then 1 else - 1);
         pureLoop rest a' (saved @ [(\<bar>lit\<bar> - 1, 0)])
       } else pureLoop rest a saved
     }"

text \<open>
  The loop \<open>while (nextVar <= numVars && assignment[nextVar-1] != 0) nextVar++\<close>.
\<close>

function findNext :: "int \<Rightarrow> int list \<Rightarrow> int \<Rightarrow> int option" where
  "findNext n a nextVar =
     (if nextVar \<le> n then do {
        val \<leftarrow> vec_get a (nextVar - 1);
        if val \<noteq> 0 then findNext n a (nextVar + 1) else Some nextVar
      } else Some nextVar)"
  by pat_completeness auto
termination
  by (relation "measure (\<lambda>(n, a, nextVar). nat (n + 1 - nextVar))") auto

declare findNext.simps [simp del]

lemma findNext_ge: "findNext n a v = Some r \<Longrightarrow> v \<le> r"
proof (induction n a v rule: findNext.induct)
  case (1 n a v)
  show ?case
  proof (cases "v \<le> n")
    case False
    with "1.prems" show ?thesis by (simp add: findNext.simps [of n a v])
  next
    case True
    then obtain val where g: "vec_get a (v - 1) = Some val"
      using "1.prems" by (cases "vec_get a (v - 1)") (simp_all add: findNext.simps [of n a v])
    show ?thesis
    proof (cases "val = 0")
      case True
      with \<open>v \<le> n\<close> g "1.prems" show ?thesis by (simp add: findNext.simps [of n a v])
    next
      case False
      with \<open>v \<le> n\<close> g "1.prems" have "findNext n a (v + 1) = Some r"
        by (simp add: findNext.simps [of n a v])
      with "1.IH" [OF \<open>v \<le> n\<close> g False] show ?thesis by simp
    qed
  qed
qed

text \<open>
  \<open>solve\<close> mutates the assignment in place; the model returns the verdict together with
  the assignment left behind.
\<close>

function solve :: "SATproblem \<Rightarrow> int list \<Rightarrow> int \<Rightarrow> (bool \<times> int list) option" where
  "solve p a varIndex =
     do {
       c0 \<leftarrow> checkConflict p a;
       if c0 then Some (False, a)
       else do {
         unitLiterals \<leftarrow> findUnitClauses p a;
         r \<leftarrow> unitLoop p unitLiterals a [];
         case r of
           Inl a' \<Rightarrow> Some (False, a')
         | Inr (a1, saved1) \<Rightarrow> do {
             pureLiterals \<leftarrow> findPureLiterals p a1;
             (a2, saved) \<leftarrow> pureLoop pureLiterals a1 saved1;
             if varIndex > numVars p then do {
               c \<leftarrow> checkConflict p a2;
               Some (\<not> c, a2)
             } else do {
               nextVar \<leftarrow> findNext (numVars p) a2 varIndex;
               if nextVar > numVars p then do {
                 c \<leftarrow> checkConflict p a2;
                 Some (\<not> c, a2)
               } else do {
                 a3 \<leftarrow> vec_set a2 (nextVar - 1) 1;
                 (r1, a4) \<leftarrow> solve p a3 (nextVar + 1);
                 if r1 then Some (True, a4)
                 else do {
                   a5 \<leftarrow> vec_set a4 (nextVar - 1) (- 1);
                   (r2, a6) \<leftarrow> solve p a5 (nextVar + 1);
                   if r2 then Some (True, a6)
                   else do {
                     a7 \<leftarrow> vec_set a6 (nextVar - 1) 0;
                     a8 \<leftarrow> restore saved a7;
                     Some (False, a8)
                   }
                 }
               }
             }
           }
       }
     }"
  by pat_completeness auto

lemma findNext_ge_1: "findNext n a v = Some r \<Longrightarrow> v \<le> n \<Longrightarrow> 1 \<le> v"
  by (subst (asm) findNext.simps) (auto simp: vec_get_def split: if_splits)

lemma solve_rel_index:
  assumes "solve_rel (p', a', i') (p, a, i)"
  shows "p' = p \<and> 1 \<le> i \<and> i < i' \<and> i' \<le> numVars p + 1"
  using assms
  by (cases rule: solve_rel.cases) (auto dest: findNext_ge findNext_ge_1)

termination solve
proof (relation "measure (\<lambda>(p, a, i). nat (numVars p + 1 - i))")
  show "wf (measure (\<lambda>(p, a, i). nat (numVars p + 1 - i)))" by simp
next
  fix p :: SATproblem and a a2 :: "int list" and varIndex nextVar :: int
  assume "findNext (numVars p) a2 varIndex = Some nextVar" "\<not> numVars p < nextVar"
  then show "\<And>a3. ((p, a3, nextVar + 1), p, a, varIndex) \<in> measure (\<lambda>(p, a, i). nat (numVars p + 1 - i))"
    using findNext_ge [of "numVars p" a2 varIndex nextVar] by simp
  then show "\<And>a5. ((p, a5, nextVar + 1), p, a, varIndex) \<in> measure (\<lambda>(p, a, i). nat (numVars p + 1 - i))"
    by simp
qed

declare solve.simps [simp del]

section \<open>The program\<close>

text \<open>
  What \<open>main\<close> writes to the standard output: the verdict line, and for a satisfiable
  problem the numbers of the model line. The model line is the loop
  \<open>for (i = 0; i < numVars; i++) cout << assignment[i] * (i+1)\<close>.
\<close>

datatype verdict = SATISFIABLE "int list" | UNSATISFIABLE | ERROR

fun modelLine :: "int list \<Rightarrow> int list \<Rightarrow> int list option" where
  "modelLine assignment [] = Some []"
| "modelLine assignment (i # rest) =
     do {
       x \<leftarrow> vec_get assignment i;
       printed \<leftarrow> modelLine assignment rest;
       Some (x * (i + 1) # printed)
     }"

text \<open>The body of the \<open>try\<close> block: the verdict and the exit status it returns.\<close>

definition mainBody :: "string list \<Rightarrow> (verdict \<times> int) option" where
  "mainBody input =
     do {
       problem \<leftarrow> parseDIMACS input;
       if numVars problem \<le> 0 then Some (ERROR, 1)
       else do {
         (result, assignment) \<leftarrow> solve problem (replicate (nat (numVars problem)) 0) 1;
         if result then do {
           printed \<leftarrow> modelLine assignment [0 .. numVars problem - 1];
           Some (SATISFIABLE printed, 0)
         } else Some (UNSATISFIABLE, 0)
       }
     }"

text \<open>
  An exception can only come from the runtime (an allocation that fails inside a vector
  operation). It is a parameter of the model: \<open>raised = Some e\<close> is an execution in which
  the \<open>try\<close> block throws \<open>e\<close> before anything is printed. Both handlers print the
  error line and leave the \<open>try\<close> statement, after which \<open>main\<close> reaches \<open>return 0\<close>.
\<close>

datatype exn = StdException string | UnknownException

definition main :: "exn option \<Rightarrow> string list \<Rightarrow> (verdict \<times> int) option" where
  "main raised input =
     (case raised of
        None \<Rightarrow> mainBody input
      | Some e \<Rightarrow> Some (ERROR, 0))"

section \<open>Vocabulary of the specification\<close>

text \<open>
  The entry of the assignment that belongs to the variable of a literal, and the three
  states of a literal under an assignment: satisfied, unassigned, falsified.
\<close>

definition varValue :: "int list \<Rightarrow> int \<Rightarrow> int" where
  "varValue a lit = a ! nat (\<bar>lit\<bar> - 1)"

definition satisfied :: "int list \<Rightarrow> int \<Rightarrow> bool" where
  "satisfied a lit \<longleftrightarrow> litTrue lit (varValue a lit)"

definition unassigned :: "int list \<Rightarrow> int \<Rightarrow> bool" where
  "unassigned a lit \<longleftrightarrow> varValue a lit = 0"

definition falsified :: "int list \<Rightarrow> int \<Rightarrow> bool" where
  "falsified a lit \<longleftrightarrow> \<not> satisfied a lit \<and> \<not> unassigned a lit"

text \<open>Every literal of every clause names a variable in \<open>1..n\<close>.\<close>

definition inRange :: "int \<Rightarrow> int list list \<Rightarrow> bool" where
  "inRange n cs \<longleftrightarrow> (\<forall>c \<in> set cs. \<forall>l \<in> set c. 1 \<le> \<bar>l\<bar> \<and> \<bar>l\<bar> \<le> n)"

text \<open>The invariant of the problem model.\<close>

definition wellFormed :: "SATproblem \<Rightarrow> bool" where
  "wellFormed p \<longleftrightarrow> 0 \<le> numVars p \<and> inRange (numVars p) (clauses p)"

text \<open>
  A total assignment of truth values to the variables, and what it means for it to
  satisfy a literal, a clause and the problem.
\<close>

definition holds :: "(int \<Rightarrow> bool) \<Rightarrow> int \<Rightarrow> bool" where
  "holds M lit \<longleftrightarrow> (lit > 0 \<and> M \<bar>lit\<bar>) \<or> (lit < 0 \<and> \<not> M \<bar>lit\<bar>)"

definition satisfies :: "(int \<Rightarrow> bool) \<Rightarrow> SATproblem \<Rightarrow> bool" where
  "satisfies M p \<longleftrightarrow> (\<forall>c \<in> set (clauses p). \<exists>l \<in> set c. holds M l)"

definition satisfiable :: "SATproblem \<Rightarrow> bool" where
  "satisfiable p \<longleftrightarrow> (\<exists>M. satisfies M p)"

text \<open>The assignment created by \<open>main\<close>: one UNASSIGNED entry per variable.\<close>

definition allUnassigned :: "SATproblem \<Rightarrow> int list" where
  "allUnassigned p = replicate (nat (numVars p)) 0"

text \<open>
  A conflict: some clause has every literal falsified.
\<close>

definition conflict :: "SATproblem \<Rightarrow> int list \<Rightarrow> bool" where
  "conflict p a \<longleftrightarrow> (\<exists>c \<in> set (clauses p). \<forall>l \<in> set c. falsified a l)"

text \<open>
  The literal a clause forces, as a list of length at most one: the clause has no
  satisfied literal, and scanning it finds exactly one literal whose variable is
  unassigned.
\<close>

definition forced :: "int list \<Rightarrow> int list \<Rightarrow> int list" where
  "forced a c =
     (if (\<forall>l \<in> set c. \<not> satisfied a l) \<and> length (filter (unassigned a) c) = 1
      then filter (unassigned a) c else [])"

text \<open>
  Literal \<open>l\<close> has an unassigned occurrence in a clause that has no satisfied literal.
\<close>

definition occurs :: "int list \<Rightarrow> int list list \<Rightarrow> int \<Rightarrow> bool" where
  "occurs a cs l \<longleftrightarrow>
     (\<exists>c \<in> set cs. (\<forall>k \<in> set c. \<not> satisfied a k) \<and> l \<in> set c \<and> unassigned a l)"

text \<open>
  The pure literal of variable \<open>v\<close>, as a list of length at most one: the variable is
  unassigned and occurs in one polarity only.
\<close>

definition pureOf :: "int list \<Rightarrow> int list list \<Rightarrow> int \<Rightarrow> int list" where
  "pureOf a cs v =
     (if unassigned a v then
        (if occurs a cs v \<and> \<not> occurs a cs (- v) then [v]
         else if \<not> occurs a cs v \<and> occurs a cs (- v) then [- v]
         else [])
      else [])"

text \<open>A total truth assignment agrees with the entries of a partial one.\<close>

definition agrees :: "(int \<Rightarrow> bool) \<Rightarrow> int list \<Rightarrow> bool" where
  "agrees M a \<longleftrightarrow>
     (\<forall>v. 1 \<le> v \<and> v \<le> int (length a) \<longrightarrow>
        (a ! nat (v - 1) > 0 \<longrightarrow> M v) \<and> (a ! nat (v - 1) < 0 \<longrightarrow> \<not> M v))"

text \<open>Assignment \<open>a'\<close> keeps every entry that \<open>a\<close> has decided.\<close>

definition extends :: "int list \<Rightarrow> int list \<Rightarrow> bool" where
  "extends a' a \<longleftrightarrow> length a' = length a \<and> (\<forall>j < length a. a ! j \<noteq> 0 \<longrightarrow> a' ! j = a ! j)"

text \<open>Every entry is one of the three values the driver writes.\<close>

definition ternary :: "int list \<Rightarrow> bool" where
  "ternary a \<longleftrightarrow> (\<forall>x \<in> set a. x = 1 \<or> x = - 1 \<or> x = 0)"

text \<open>The assignment after making literal \<open>l\<close> true.\<close>

definition assign :: "int list \<Rightarrow> int \<Rightarrow> int list" where
  "assign a l = a[nat (\<bar>l\<bar> - 1) := (if l > 0 then 1 else - 1)]"

text \<open>
  The undo list \<open>saved\<close> accounts for the difference between the assignment \<open>a0\<close> at the
  entry of a call and the current one: it records in-range indices with prior value \<open>0\<close>,
  and every entry that has changed is recorded.
\<close>

definition tracked :: "int list \<Rightarrow> int list \<Rightarrow> (int \<times> int) list \<Rightarrow> bool" where
  "tracked a0 a saved \<longleftrightarrow>
     length a = length a0 \<and>
     (\<forall>(i, v) \<in> set saved. 0 \<le> i \<and> i < int (length a0) \<and> v = 0 \<and> a0 ! nat i = 0) \<and>
     (\<forall>j < length a0. a ! j \<noteq> a0 ! j \<longrightarrow> int j \<in> fst ` set saved)"

text \<open>
  Assignment \<open>a'\<close> differs from \<open>a\<close> only at unassigned variables of literals of \<open>ps\<close>,
  which it makes true.
\<close>

definition stepped :: "int list \<Rightarrow> int list \<Rightarrow> int list \<Rightarrow> bool" where
  "stepped ps a a' \<longleftrightarrow>
     (\<forall>j < length a. a' ! j = a ! j \<or>
        (a ! j = 0 \<and> (\<exists>l \<in> set ps. nat (\<bar>l\<bar> - 1) = j \<and> a' ! j = (if l > 0 then 1 else - 1))))"

text \<open>What the scan of one clause makes \<open>findUnitClauses\<close> append.\<close>

definition pushed :: "int \<times> bool \<Rightarrow> int list" where
  "pushed r = (if \<not> snd r \<and> fst r \<noteq> 0 then [fst r] else [])"

text \<open>The flag of variable \<open>v\<close> in one of the vectors \<open>posAppears\<close> and \<open>negAppears\<close>.\<close>

definition marked :: "bool list \<Rightarrow> int \<Rightarrow> bool" where
  "marked bs v \<longleftrightarrow> bs ! nat v"

text \<open>
  What a call \<open>solve p a i\<close> with result \<open>r\<close> guarantees: on success the assignment
  left behind keeps the decided entries, has no conflict and decides every variable from
  \<open>i\<close> on; on failure the assignment is unchanged and no total assignment that agrees
  with it satisfies the problem.
\<close>

definition solved :: "SATproblem \<Rightarrow> int list \<Rightarrow> int \<Rightarrow> bool \<times> int list \<Rightarrow> bool" where
  "solved p a i r \<longleftrightarrow>
     length (snd r) = length a \<and> (ternary a \<longrightarrow> ternary (snd r)) \<and>
     (if fst r
      then extends (snd r) a \<and> \<not> conflict p (snd r) \<and>
           (\<forall>v. i \<le> v \<and> v \<le> numVars p \<longrightarrow> snd r ! nat (v - 1) \<noteq> 0)
      else snd r = a \<and> (\<forall>M. \<not> (agrees M a \<and> satisfies M p)))"

text \<open>The direct recursive calls of \<open>solve\<close>: the call on \<open>x\<close> makes a call on \<open>y\<close>.\<close>

definition calls :: "SATproblem \<times> int list \<times> int \<Rightarrow> SATproblem \<times> int list \<times> int \<Rightarrow> bool" where
  "calls x y \<longleftrightarrow> solve_rel y x"

section \<open>The analyses compute what the specification says\<close>

lemma vec_get_lit:
  "1 \<le> \<bar>l\<bar> \<Longrightarrow> \<bar>l\<bar> \<le> int (length a) \<Longrightarrow> vec_get a (\<bar>l\<bar> - 1) = Some (varValue a l)"
  by (simp add: vec_get_def varValue_def)

lemma lit_cases:
  obtains (sat) "litTrue l (varValue a l)" "satisfied a l" "\<not> falsified a l"
  | (un) "\<not> litTrue l (varValue a l)" "varValue a l = 0" "\<not> satisfied a l" "unassigned a l" "\<not> falsified a l"
  | (fal) "\<not> litTrue l (varValue a l)" "varValue a l \<noteq> 0" "\<not> satisfied a l" "\<not> unassigned a l" "falsified a l"
  by (auto simp: falsified_def satisfied_def unassigned_def litTrue_def)

lemma unitScan_pending:
  assumes "\<forall>l \<in> set c. 1 \<le> \<bar>l\<bar> \<and> \<bar>l\<bar> \<le> int (length a)" and "u \<noteq> 0"
  shows "\<exists>r. unitScan a u c = Some r \<and>
     pushed r = (if \<forall>l \<in> set c. falsified a l then [u] else [])"
  using assms
proof (induction c)
  case Nil
  then show ?case by (simp add: pushed_def)
next
  case (Cons l c)
  have g: "vec_get a (\<bar>l\<bar> - 1) = Some (varValue a l)"
    using Cons.prems by (auto simp: vec_get_lit)
  from Cons obtain r where r: "unitScan a u c = Some r"
    "pushed r = (if \<forall>l \<in> set c. falsified a l then [u] else [])"
    by auto
  show ?case
  proof (cases rule: lit_cases [of l a])
    case sat
    then show ?thesis using g by (simp add: pushed_def)
  next
    case un
    then show ?thesis using g \<open>u \<noteq> 0\<close> by (simp add: pushed_def)
  next
    case fal
    then show ?thesis using g r by simp
  qed
qed

lemma unitScan_forced:
  assumes "\<forall>l \<in> set c. 1 \<le> \<bar>l\<bar> \<and> \<bar>l\<bar> \<le> int (length a)"
  shows "\<exists>r. unitScan a 0 c = Some r \<and> pushed r = forced a c"
  using assms
proof (induction c)
  case Nil
  then show ?case by (simp add: pushed_def forced_def)
next
  case (Cons l c)
  have g: "vec_get a (\<bar>l\<bar> - 1) = Some (varValue a l)" and l0: "l \<noteq> 0"
    and rg: "\<forall>l \<in> set c. 1 \<le> \<bar>l\<bar> \<and> \<bar>l\<bar> \<le> int (length a)"
    using Cons.prems by (auto simp: vec_get_lit)
  show ?case
  proof (cases rule: lit_cases [of l a])
    case sat
    then show ?thesis using g by (simp add: pushed_def forced_def)
  next
    case un
    from unitScan_pending [OF rg l0] obtain r where r: "unitScan a l c = Some r"
      "pushed r = (if \<forall>l \<in> set c. falsified a l then [l] else [])"
      by auto
    have f: "(\<forall>k \<in> set c. falsified a k) =
        ((\<forall>k \<in> set c. \<not> satisfied a k) \<and> filter (unassigned a) c = [])"
      by (auto simp: falsified_def filter_empty_conv)
    have "unitScan a 0 (l # c) = Some r" using g r(1) un by simp
    moreover have "forced a (l # c) = (if \<forall>l \<in> set c. falsified a l then [l] else [])"
      using un f by (simp add: forced_def)
    ultimately show ?thesis using r(2) by simp
  next
    case fal
    then have "forced a (l # c) = forced a c" by (simp add: forced_def)
    then show ?thesis using fal g Cons.IH [OF rg] by simp
  qed
qed

lemma unitClauses_eq:
  assumes "inRange (int (length a)) cs"
  shows "unitClauses a cs acc = Some (acc @ concat (map (forced a) cs))"
  using assms
proof (induction cs arbitrary: acc)
  case Nil
  then show ?case by simp
next
  case (Cons c cs)
  have r: "\<forall>l \<in> set c. 1 \<le> \<bar>l\<bar> \<and> \<bar>l\<bar> \<le> int (length a)" and rs: "inRange (int (length a)) cs"
    using Cons.prems by (auto simp: inRange_def)
  obtain r where us: "unitScan a 0 c = Some r" and f: "pushed r = forced a c"
    using unitScan_forced [OF r] by blast
  have "unitClauses a (c # cs) acc = unitClauses a cs (acc @ pushed r)"
    using us by (cases r) (simp add: pushed_def)
  then show ?case using f Cons.IH [OF rs] by simp
qed

lemma findUnitClauses_eq:
  assumes "inRange (int (length a)) (clauses p)"
  shows "findUnitClauses p a = Some (concat (map (forced a) (clauses p)))"
  using assms by (simp add: findUnitClauses_def unitClauses_eq)

lemma clauseFalsified_eq:
  assumes "\<forall>l \<in> set c. 1 \<le> \<bar>l\<bar> \<and> \<bar>l\<bar> \<le> int (length a)"
  shows "clauseFalsified a c = Some (\<forall>l \<in> set c. falsified a l)"
  using assms
  by (induction c) (auto simp: vec_get_lit falsified_def satisfied_def unassigned_def)

lemma conflictIn_eq:
  assumes "inRange (int (length a)) cs"
  shows "conflictIn a cs = Some (\<exists>c \<in> set cs. \<forall>l \<in> set c. falsified a l)"
  using assms
  by (induction cs) (auto simp: inRange_def clauseFalsified_eq)

lemma checkConflict_eq:
  assumes "inRange (int (length a)) (clauses p)"
  shows "checkConflict p a = Some (\<exists>c \<in> set (clauses p). \<forall>l \<in> set c. falsified a l)"
  using assms by (simp add: checkConflict_def conflictIn_eq)

lemma clauseSat_eq:
  assumes "\<forall>l \<in> set c. 1 \<le> \<bar>l\<bar> \<and> \<bar>l\<bar> \<le> int (length a)"
  shows "clauseSat a c = Some (\<exists>l \<in> set c. satisfied a l)"
  using assms
  by (induction c) (auto simp: vec_get_lit satisfied_def)

lemma marked_update:
  "0 \<le> w \<Longrightarrow> w < int (length bs) \<Longrightarrow> 0 \<le> v \<Longrightarrow> marked (bs[nat w := True]) v = (marked bs v \<or> v = w)"
  by (auto simp: marked_def nth_list_update)

lemma markClause_eq:
  assumes "\<forall>l \<in> set c. 1 \<le> \<bar>l\<bar> \<and> \<bar>l\<bar> \<le> int (length a) \<and> \<bar>l\<bar> < int (length ps) \<and> \<bar>l\<bar> < int (length ns)"
  shows "\<exists>r. markClause a c (ps, ns) = Some r \<and>
     length (fst r) = length ps \<and> length (snd r) = length ns \<and>
     (\<forall>v \<ge> 1. marked (fst r) v = (marked ps v \<or> (v \<in> set c \<and> unassigned a v))) \<and>
     (\<forall>v \<ge> 1. marked (snd r) v = (marked ns v \<or> (- v \<in> set c \<and> unassigned a (- v))))"
  using assms
proof (induction c arbitrary: ps ns)
  case Nil
  then show ?case by simp
next
  case (Cons l c)
  have g: "vec_get a (\<bar>l\<bar> - 1) = Some (varValue a l)" and l1: "1 \<le> \<bar>l\<bar>"
    and lp: "\<bar>l\<bar> < int (length ps)" and ln: "\<bar>l\<bar> < int (length ns)"
    using Cons.prems by (auto simp: vec_get_lit)
  have rg: "\<forall>l \<in> set c. 1 \<le> \<bar>l\<bar> \<and> \<bar>l\<bar> \<le> int (length a) \<and> \<bar>l\<bar> < int (length ps) \<and> \<bar>l\<bar> < int (length ns)"
    using Cons.prems by simp
  show ?case
  proof (cases "unassigned a l")
    case False
    then have "markClause a (l # c) (ps, ns) = markClause a c (ps, ns)"
      using g by (simp add: unassigned_def)
    then show ?thesis using Cons.IH [OF rg] False by auto
  next
    case True
    show ?thesis
    proof (cases "l > 0")
      case True
      let ?ps = "ps[nat \<bar>l\<bar> := True]"
      have "markClause a (l # c) (ps, ns) = markClause a c (?ps, ns)"
        using g \<open>unassigned a l\<close> True lp by (simp add: unassigned_def vec_set_def)
      moreover have "\<forall>l \<in> set c. 1 \<le> \<bar>l\<bar> \<and> \<bar>l\<bar> \<le> int (length a) \<and> \<bar>l\<bar> < int (length ?ps) \<and> \<bar>l\<bar> < int (length ns)"
        using rg by simp
      from Cons.IH [OF this] obtain r where r: "markClause a c (?ps, ns) = Some r"
        "length (fst r) = length ps" "length (snd r) = length ns"
        "\<forall>v \<ge> 1. marked (fst r) v = (marked ?ps v \<or> (v \<in> set c \<and> unassigned a v))"
        "\<forall>v \<ge> 1. marked (snd r) v = (marked ns v \<or> (- v \<in> set c \<and> unassigned a (- v)))"
        by auto
      moreover have "\<forall>v \<ge> 1. marked ?ps v = (marked ps v \<or> v = \<bar>l\<bar>)"
        using lp l1 by (simp add: marked_update)
      ultimately show ?thesis using True \<open>unassigned a l\<close> by auto
    next
      case False
      let ?ns = "ns[nat \<bar>l\<bar> := True]"
      have "markClause a (l # c) (ps, ns) = markClause a c (ps, ?ns)"
        using g \<open>unassigned a l\<close> False ln by (simp add: unassigned_def vec_set_def)
      moreover have "\<forall>l \<in> set c. 1 \<le> \<bar>l\<bar> \<and> \<bar>l\<bar> \<le> int (length a) \<and> \<bar>l\<bar> < int (length ps) \<and> \<bar>l\<bar> < int (length ?ns)"
        using rg by simp
      from Cons.IH [OF this] obtain r where r: "markClause a c (ps, ?ns) = Some r"
        "length (fst r) = length ps" "length (snd r) = length ns"
        "\<forall>v \<ge> 1. marked (fst r) v = (marked ps v \<or> (v \<in> set c \<and> unassigned a v))"
        "\<forall>v \<ge> 1. marked (snd r) v = (marked ?ns v \<or> (- v \<in> set c \<and> unassigned a (- v)))"
        by auto
      moreover have "\<forall>v \<ge> 1. marked ?ns v = (marked ns v \<or> v = \<bar>l\<bar>)"
        using ln l1 by (simp add: marked_update)
      moreover have "\<forall>v \<ge> 1. (v = \<bar>l\<bar>) = (- v = l)" using False l1 by auto
      ultimately show ?thesis using False \<open>unassigned a l\<close> by auto
    qed
  qed
qed

lemma occurs_Nil: "occurs a [] l = False"
  by (simp add: occurs_def)

lemma occurs_Cons:
  "occurs a (c # cs) l =
     (((\<forall>k \<in> set c. \<not> satisfied a k) \<and> l \<in> set c \<and> unassigned a l) \<or> occurs a cs l)"
  by (auto simp: occurs_def)

lemma unassigned_uminus: "unassigned a (- l) = unassigned a l"
  by (simp add: unassigned_def varValue_def)

lemma markClauses_eq:
  assumes "inRange (int (length a)) cs"
    and "\<forall>c \<in> set cs. \<forall>l \<in> set c. \<bar>l\<bar> < int (length ps) \<and> \<bar>l\<bar> < int (length ns)"
  shows "\<exists>r. markClauses a cs (ps, ns) = Some r \<and>
     length (fst r) = length ps \<and> length (snd r) = length ns \<and>
     (\<forall>v \<ge> 1. marked (fst r) v = (marked ps v \<or> occurs a cs v)) \<and>
     (\<forall>v \<ge> 1. marked (snd r) v = (marked ns v \<or> occurs a cs (- v)))"
  using assms
proof (induction cs arbitrary: ps ns)
  case Nil
  then show ?case by (simp add: occurs_Nil)
next
  case (Cons c cs)
  have rc: "\<forall>l \<in> set c. 1 \<le> \<bar>l\<bar> \<and> \<bar>l\<bar> \<le> int (length a)"
    and rcs: "inRange (int (length a)) cs"
    using Cons.prems(1) by (auto simp: inRange_def)
  have s: "clauseSat a c = Some (\<exists>l \<in> set c. satisfied a l)"
    using clauseSat_eq [OF rc] .
  show ?case
  proof (cases "\<exists>l \<in> set c. satisfied a l")
    case True
    then have "markClauses a (c # cs) (ps, ns) = markClauses a cs (ps, ns)"
      using s by simp
    moreover have "\<forall>c \<in> set cs. \<forall>l \<in> set c. \<bar>l\<bar> < int (length ps) \<and> \<bar>l\<bar> < int (length ns)"
      using Cons.prems(2) by simp
    from Cons.IH [OF rcs this] obtain r where "markClauses a cs (ps, ns) = Some r"
      "length (fst r) = length ps" "length (snd r) = length ns"
      "\<forall>v \<ge> 1. marked (fst r) v = (marked ps v \<or> occurs a cs v)"
      "\<forall>v \<ge> 1. marked (snd r) v = (marked ns v \<or> occurs a cs (- v))"
      by auto
    ultimately show ?thesis using True by (auto simp: occurs_Cons)
  next
    case False
    have "\<forall>l \<in> set c. 1 \<le> \<bar>l\<bar> \<and> \<bar>l\<bar> \<le> int (length a) \<and> \<bar>l\<bar> < int (length ps) \<and> \<bar>l\<bar> < int (length ns)"
      using rc Cons.prems(2) by simp
    from markClause_eq [OF this] obtain q where q: "markClause a c (ps, ns) = Some q"
      "length (fst q) = length ps" "length (snd q) = length ns"
      "\<forall>v \<ge> 1. marked (fst q) v = (marked ps v \<or> (v \<in> set c \<and> unassigned a v))"
      "\<forall>v \<ge> 1. marked (snd q) v = (marked ns v \<or> (- v \<in> set c \<and> unassigned a (- v)))"
      by auto
    have m: "markClauses a (c # cs) (ps, ns) = markClauses a cs (fst q, snd q)"
      using s False q(1) by simp
    have "\<forall>c \<in> set cs. \<forall>l \<in> set c. \<bar>l\<bar> < int (length (fst q)) \<and> \<bar>l\<bar> < int (length (snd q))"
      using Cons.prems(2) q(2,3) by simp
    from Cons.IH [OF rcs this] obtain r where r: "markClauses a cs (fst q, snd q) = Some r"
      "length (fst r) = length (fst q)" "length (snd r) = length (snd q)"
      "\<forall>v \<ge> 1. marked (fst r) v = (marked (fst q) v \<or> occurs a cs v)"
      "\<forall>v \<ge> 1. marked (snd r) v = (marked (snd q) v \<or> occurs a cs (- v))"
      by auto
    have "\<forall>v \<ge> 1. marked (fst r) v = (marked ps v \<or> occurs a (c # cs) v)"
      using r(4) q(4) False by (auto simp: occurs_Cons)
    moreover have "\<forall>v \<ge> 1. marked (snd r) v = (marked ns v \<or> occurs a (c # cs) (- v))"
      using r(5) q(5) False by (auto simp: occurs_Cons)
    ultimately show ?thesis using m r(1,2,3) q(2,3) by simp
  qed
qed

lemma collectPure_eq:
  assumes "\<forall>v \<in> set vars. 1 \<le> v \<and> v \<le> int (length a) \<and> v < int (length ps) \<and> v < int (length ns)
      \<and> marked ps v = occurs a cs v \<and> marked ns v = occurs a cs (- v)"
  shows "collectPure a ps ns vars acc = Some (acc @ concat (map (pureOf a cs) vars))"
  using assms
proof (induction vars arbitrary: acc)
  case Nil
  then show ?case by simp
next
  case (Cons v vars)
  have v: "1 \<le> v" "v \<le> int (length a)" "v < int (length ps)" "v < int (length ns)"
    "marked ps v = occurs a cs v" "marked ns v = occurs a cs (- v)"
    using Cons.prems by auto
  have g: "vec_get a (v - 1) = Some (varValue a v)"
    using v by (simp add: vec_get_def varValue_def)
  have gp: "vec_get ps v = Some (occurs a cs v)" and gn: "vec_get ns v = Some (occurs a cs (- v))"
    using v by (auto simp: vec_get_def marked_def)
  have rest: "\<forall>v \<in> set vars. 1 \<le> v \<and> v \<le> int (length a) \<and> v < int (length ps) \<and> v < int (length ns)
      \<and> marked ps v = occurs a cs v \<and> marked ns v = occurs a cs (- v)"
    using Cons.prems by simp
  show ?case
    using g gp gn Cons.IH [OF rest]
    by (simp add: pureOf_def unassigned_def)
qed

lemma findPureLiterals_eq:
  assumes "inRange (numVars p) (clauses p)" and "numVars p \<le> int (length a)" and "0 \<le> numVars p"
    and "numVars p < 2147483647"
  shows "findPureLiterals p a = Some (concat (map (pureOf a (clauses p)) [1 .. numVars p]))"
proof -
  let ?f = "replicate (nat (numVars p + 1)) False"
  have r1: "inRange (int (length a)) (clauses p)"
    using assms(1,2) by (fastforce simp: inRange_def)
  have r2: "\<forall>c \<in> set (clauses p). \<forall>l \<in> set c. \<bar>l\<bar> < int (length ?f) \<and> \<bar>l\<bar> < int (length ?f)"
    using assms(1,3) by (fastforce simp: inRange_def)
  from markClauses_eq [OF r1 r2] obtain r where r: "markClauses a (clauses p) (?f, ?f) = Some r"
      "length (fst r) = length ?f" "length (snd r) = length ?f"
      "\<forall>v \<ge> 1. marked (fst r) v = (marked ?f v \<or> occurs a (clauses p) v)"
      "\<forall>v \<ge> 1. marked (snd r) v = (marked ?f v \<or> occurs a (clauses p) (- v))"
    by auto
  have o: "occurs a (clauses p) l \<Longrightarrow> \<bar>l\<bar> \<le> numVars p" for l
    using assms(1) by (auto simp: occurs_def inRange_def)
  have mf: "marked ?f v = False" if "1 \<le> v" "v \<le> numVars p" for v
    using that by (simp add: marked_def)
  have m1: "\<forall>v \<ge> 1. v \<le> numVars p \<longrightarrow> marked (fst r) v = occurs a (clauses p) v"
    using r(4) mf by simp
  have m2: "\<forall>v \<ge> 1. v \<le> numVars p \<longrightarrow> marked (snd r) v = occurs a (clauses p) (- v)"
    using r(5) mf by simp
  have vs: "\<forall>v \<in> set [1 .. numVars p]. 1 \<le> v \<and> v \<le> int (length a)
      \<and> v < int (length (fst r)) \<and> v < int (length (snd r))
      \<and> marked (fst r) v = occurs a (clauses p) v \<and> marked (snd r) v = occurs a (clauses p) (- v)"
    using assms(2,3) r(2,3) m1 m2 by auto
  have "collectPure a (fst r) (snd r) [1 .. numVars p] [] = Some ([] @ concat (map (pureOf a (clauses p)) [1 .. numVars p]))"
    by (rule collectPure_eq [OF vs])
  then show ?thesis
    using r(1) assms(3,4) by (cases r) (simp add: findPureLiterals_def)
qed

lemma vec_set_assign:
  "1 \<le> \<bar>l\<bar> \<Longrightarrow> \<bar>l\<bar> \<le> int (length a) \<Longrightarrow>
     vec_set a (\<bar>l\<bar> - 1) (if l > 0 then 1 else - 1) = Some (assign a l)"
  by (simp add: vec_set_def assign_def)

lemma length_assign [simp]: "length (assign a l) = length a"
  by (simp add: assign_def)

lemma tracked_refl: "tracked a a []"
  by (simp add: tracked_def)

lemma tracked_extends: "tracked a0 a saved \<Longrightarrow> extends a a0"
  by (fastforce simp: tracked_def extends_def)

lemma tracked_assign:
  assumes "tracked a0 a saved" and "1 \<le> \<bar>l\<bar>" and "\<bar>l\<bar> \<le> int (length a)" and "varValue a l = 0"
  shows "tracked a0 (assign a l) (saved @ [(\<bar>l\<bar> - 1, 0)])"
proof -
  let ?j = "nat (\<bar>l\<bar> - 1)"
  have len: "length a = length a0" and j: "?j < length a0"
    using assms by (auto simp: tracked_def)
  have a0: "a0 ! ?j = 0"
  proof (cases "a ! ?j = a0 ! ?j")
    case True
    then show ?thesis using assms(4) by (simp add: varValue_def)
  next
    case False
    with assms(1) j have "int ?j \<in> fst ` set saved" unfolding tracked_def by blast
    then obtain v where "(int ?j, v) \<in> set saved" by auto
    with assms(1) have "a0 ! nat (int ?j) = 0" unfolding tracked_def by blast
    moreover have "l \<noteq> 0" using assms(2) by auto
    ultimately show ?thesis by simp
  qed
  have "\<forall>k < length a0. assign a l ! k \<noteq> a0 ! k \<longrightarrow> int k \<in> fst ` set (saved @ [(\<bar>l\<bar> - 1, 0)])"
  proof (intro allI impI)
    fix k assume k: "k < length a0" and d: "assign a l ! k \<noteq> a0 ! k"
    show "int k \<in> fst ` set (saved @ [(\<bar>l\<bar> - 1, 0)])"
    proof (cases "k = ?j")
      case True
      moreover have "l \<noteq> 0" using assms(2) by auto
    ultimately show ?thesis by simp
    next
      case False
      then have "a ! k \<noteq> a0 ! k" using d by (simp add: assign_def)
      then show ?thesis using assms(1) k by (simp add: tracked_def)
    qed
  qed
  then show ?thesis using assms(1,2,3) a0 len by (auto simp: tracked_def)
qed

lemma restore_nth:
  assumes "\<forall>(i, v) \<in> set saved. 0 \<le> i \<and> i < int (length a) \<and> v = 0"
  shows "\<exists>r. restore saved a = Some r \<and> length r = length a \<and>
     (\<forall>j < length a. r ! j = (if int j \<in> fst ` set saved then 0 else a ! j))"
  using assms
proof (induction saved arbitrary: a)
  case Nil
  then show ?case by simp
next
  case (Cons iv saved)
  obtain i v where iv: "iv = (i, v)" by (cases iv)
  have i: "0 \<le> i" "i < int (length a)" "v = 0" using Cons.prems iv by auto
  let ?a = "a[nat i := 0]"
  have "\<forall>(i, v) \<in> set saved. 0 \<le> i \<and> i < int (length ?a) \<and> v = 0"
    using Cons.prems by auto
  from Cons.IH [OF this] obtain r where r: "restore saved ?a = Some r" "length r = length a"
    "\<forall>j < length a. r ! j = (if int j \<in> fst ` set saved then 0 else ?a ! j)"
    by auto
  have "restore (iv # saved) a = Some r"
    using iv i r(1) by (simp add: vec_set_def)
  moreover have "\<forall>j < length a. r ! j = (if int j \<in> fst ` set (iv # saved) then 0 else a ! j)"
    using r(3) iv i by (auto simp: nth_list_update)
  ultimately show ?case using r(2) by simp
qed

lemma restore_tracked:
  assumes "tracked a0 a saved"
  shows "restore saved a = Some a0"
proof -
  have "\<forall>(i, v) \<in> set saved. 0 \<le> i \<and> i < int (length a) \<and> v = 0"
    using assms by (auto simp: tracked_def)
  from restore_nth [OF this] obtain r where r: "restore saved a = Some r" "length r = length a"
    "\<forall>j < length a. r ! j = (if int j \<in> fst ` set saved then 0 else a ! j)"
    by auto
  have "r = a0"
  proof (rule nth_equalityI)
    show "length r = length a0" using r(2) assms by (simp add: tracked_def)
  next
    fix j assume "j < length r"
    then have j: "j < length a0" "j < length a" using r(2) assms by (simp_all add: tracked_def)
    show "r ! j = a0 ! j"
    proof (cases "int j \<in> fst ` set saved")
      case True
      then have "a0 ! j = 0" using assms by (fastforce simp: tracked_def)
      then show ?thesis using r(3) j True by simp
    next
      case False
      then have "a ! j = a0 ! j" using assms j by (auto simp: tracked_def)
      then show ?thesis using r(3) j False by simp
    qed
  qed
  then show ?thesis using r(1) by simp
qed

lemma ternary_assign: "ternary a \<Longrightarrow> ternary (assign a l)"
  unfolding ternary_def assign_def
  by (auto dest!: set_update_subset_insert [THEN subsetD])

lemma agrees_satisfied:
  assumes "agrees M a" and "1 \<le> \<bar>l\<bar>" and "\<bar>l\<bar> \<le> int (length a)" and "satisfied a l"
  shows "holds M l"
  using assms unfolding agrees_def satisfied_def litTrue_def holds_def varValue_def
  by (metis abs_of_pos abs_of_neg)

lemma agrees_falsified:
  assumes "agrees M a" and "1 \<le> \<bar>l\<bar>" and "\<bar>l\<bar> \<le> int (length a)" and "falsified a l"
  shows "\<not> holds M l"
proof -
  have "(varValue a l > 0 \<longrightarrow> M \<bar>l\<bar>) \<and> (varValue a l < 0 \<longrightarrow> \<not> M \<bar>l\<bar>)"
    using assms(1,2,3) unfolding agrees_def varValue_def by blast
  then show ?thesis
    using assms(4) unfolding falsified_def satisfied_def unassigned_def litTrue_def holds_def
    by (cases "varValue a l" "0::int" rule: linorder_cases) auto
qed

lemma agrees_conflict:
  assumes "agrees M a" and "inRange (int (length a)) (clauses p)" and "conflict p a"
  shows "\<not> satisfies M p"
  using assms agrees_falsified unfolding conflict_def satisfies_def inRange_def
  by blast

lemma agrees_assign:
  assumes "agrees M a" and "holds M l" and "1 \<le> \<bar>l\<bar>" and "\<bar>l\<bar> \<le> int (length a)"
  shows "agrees M (assign a l)"
  unfolding agrees_def
proof (intro allI impI)
  fix v assume v: "1 \<le> v \<and> v \<le> int (length (assign a l))"
  show "(0 < assign a l ! nat (v - 1) \<longrightarrow> M v) \<and> (assign a l ! nat (v - 1) < 0 \<longrightarrow> \<not> M v)"
  proof (cases "v = \<bar>l\<bar>")
    case True
    have "nat (\<bar>l\<bar> - 1) < length a" using assms(3,4) by simp
    then have "assign a l ! nat (\<bar>l\<bar> - 1) = (if l > 0 then 1 else - 1)"
      unfolding assign_def by (rule nth_list_update_eq)
    then show ?thesis using True assms(2) by (auto simp: holds_def)
  next
    case False
    then have "nat (v - 1) \<noteq> nat (\<bar>l\<bar> - 1)" using v assms(3) by auto
    then have "assign a l ! nat (v - 1) = a ! nat (v - 1)" by (simp add: assign_def)
    then show ?thesis using assms(1) v by (simp add: agrees_def)
  qed
qed

section \<open>The loops of the driver\<close>

lemma unitLoop_correct:
  assumes "inRange (int (length a0)) (clauses p)"
    and "\<forall>l \<in> set us. 1 \<le> \<bar>l\<bar> \<and> \<bar>l\<bar> \<le> int (length a0)"
    and "\<forall>l \<in> set us. \<forall>M. agrees M a0 \<and> satisfies M p \<longrightarrow> holds M l"
    and "tracked a0 a saved"
    and "\<forall>M. agrees M a0 \<and> satisfies M p \<longrightarrow> agrees M a"
    and "\<not> conflict p a"
    and "t \<longrightarrow> ternary a"
  shows "\<exists>res. unitLoop p us a saved = Some res \<and>
     (case res of
        Inl r \<Rightarrow> r = a0 \<and> (\<forall>M. \<not> (agrees M a0 \<and> satisfies M p))
      | Inr (a', saved') \<Rightarrow> tracked a0 a' saved' \<and> \<not> conflict p a' \<and> (t \<longrightarrow> ternary a') \<and>
          (\<forall>M. agrees M a0 \<and> satisfies M p \<longrightarrow> agrees M a'))"
  using assms(2-)
proof (induction us arbitrary: a saved)
  case Nil
  then show ?case by simp
next
  case (Cons l us)
  have len: "length a = length a0" using Cons.prems(3) by (simp add: tracked_def)
  have l: "1 \<le> \<bar>l\<bar>" "\<bar>l\<bar> \<le> int (length a)" using Cons.prems(1) len by auto
  have g: "vec_get a (\<bar>l\<bar> - 1) = Some (varValue a l)" using l by (rule vec_get_lit)
  have us: "\<forall>l \<in> set us. 1 \<le> \<bar>l\<bar> \<and> \<bar>l\<bar> \<le> int (length a0)"
    "\<forall>l \<in> set us. \<forall>M. agrees M a0 \<and> satisfies M p \<longrightarrow> holds M l"
    using Cons.prems(1,2) by simp_all
  show ?case
  proof (cases "varValue a l = 0")
    case False
    then have "unitLoop p (l # us) a saved = unitLoop p us a saved" using g by simp
    then show ?thesis using Cons.IH [OF us Cons.prems(3-)] by simp
  next
    case True
    let ?a = "assign a l" and ?s = "saved @ [(\<bar>l\<bar> - 1, 0)]"
    have s: "vec_set a (\<bar>l\<bar> - 1) (if l > 0 then 1 else - 1) = Some ?a"
      using l by (rule vec_set_assign)
    have tr: "tracked a0 ?a ?s" using Cons.prems(3) l True by (rule tracked_assign)
    have rg: "inRange (int (length ?a)) (clauses p)" using assms(1) len by simp
    have cc: "checkConflict p ?a = Some (conflict p ?a)"
      using checkConflict_eq [OF rg] by (simp add: conflict_def)
    have ag: "\<forall>M. agrees M a0 \<and> satisfies M p \<longrightarrow> agrees M ?a"
      using Cons.prems(2,4) l agrees_assign by auto
    show ?thesis
    proof (cases "conflict p ?a")
      case True
      have "unitLoop p (l # us) a saved = Some (Inl a0)"
        using g \<open>varValue a l = 0\<close> s cc True restore_tracked [OF tr] by simp
      moreover have "\<forall>M. \<not> (agrees M a0 \<and> satisfies M p)"
        using ag agrees_conflict [OF _ rg True] by blast
      ultimately show ?thesis by simp
    next
      case False
      have "unitLoop p (l # us) a saved = unitLoop p us ?a ?s"
        using g \<open>varValue a l = 0\<close> s cc False by simp
      moreover have "t \<longrightarrow> ternary ?a" using Cons.prems(6) by (simp add: ternary_assign)
      ultimately show ?thesis
        using Cons.IH [OF us tr ag False] by simp
    qed
  qed
qed

lemma stepped_Nil: "stepped [] a a"
  by (simp add: stepped_def)

lemma stepped_skip: "stepped ps a a' \<Longrightarrow> stepped (l # ps) a a'"
  unfolding stepped_def by (metis list.set_intros(2))

lemma stepped_assign:
  assumes "stepped ps (assign a l) a'" and "varValue a l = 0"
  shows "stepped (l # ps) a a'"
  unfolding stepped_def
proof (intro allI impI)
  fix j assume j: "j < length a"
  show "a' ! j = a ! j \<or>
    (a ! j = 0 \<and> (\<exists>k \<in> set (l # ps). nat (\<bar>k\<bar> - 1) = j \<and> a' ! j = (if k > 0 then 1 else - 1)))"
  proof (cases "j = nat (\<bar>l\<bar> - 1)")
    case True
    then have "assign a l ! j = (if l > 0 then 1 else - 1)" using j by (simp add: assign_def)
    then have "a' ! j = (if l > 0 then 1 else - 1)" using assms(1) j unfolding stepped_def by auto
    moreover have "a ! j = 0" using assms(2) True by (simp add: varValue_def)
    ultimately show ?thesis using True by auto
  next
    case False
    then have "assign a l ! j = a ! j" by (simp add: assign_def)
    then show ?thesis using assms(1) j unfolding stepped_def
      by (metis length_assign list.set_intros(2))
  qed
qed

lemma pureLoop_correct:
  assumes "\<forall>l \<in> set ps. 1 \<le> \<bar>l\<bar> \<and> \<bar>l\<bar> \<le> int (length a0)"
    and "tracked a0 a saved"
    and "t \<longrightarrow> ternary a"
  shows "\<exists>res. pureLoop ps a saved = Some res \<and>
     tracked a0 (fst res) (snd res) \<and> (t \<longrightarrow> ternary (fst res)) \<and> stepped ps a (fst res)"
  using assms
proof (induction ps arbitrary: a saved)
  case Nil
  then show ?case by (simp add: stepped_Nil)
next
  case (Cons l ps)
  have len: "length a = length a0" using Cons.prems(2) by (simp add: tracked_def)
  have l: "1 \<le> \<bar>l\<bar>" "\<bar>l\<bar> \<le> int (length a)" using Cons.prems(1) len by auto
  have g: "vec_get a (\<bar>l\<bar> - 1) = Some (varValue a l)" using l by (rule vec_get_lit)
  have ps: "\<forall>l \<in> set ps. 1 \<le> \<bar>l\<bar> \<and> \<bar>l\<bar> \<le> int (length a0)"
    using Cons.prems(1) by simp
  show ?case
  proof (cases "varValue a l = 0")
    case False
    then have e: "pureLoop (l # ps) a saved = pureLoop ps a saved" using g by simp
    from Cons.IH [OF ps Cons.prems(2,3)]
    obtain res where "pureLoop ps a saved = Some res" "tracked a0 (fst res) (snd res)"
      "t \<longrightarrow> ternary (fst res)" "stepped ps a (fst res)"
      by blast
    then show ?thesis using e stepped_skip by auto
  next
    case True
    let ?a = "assign a l" and ?s = "saved @ [(\<bar>l\<bar> - 1, 0)]"
    have s: "vec_set a (\<bar>l\<bar> - 1) (if l > 0 then 1 else - 1) = Some ?a"
      using l by (rule vec_set_assign)
    have tr: "tracked a0 ?a ?s" using Cons.prems(2) l True by (rule tracked_assign)
    have e: "pureLoop (l # ps) a saved = pureLoop ps ?a ?s"
      using g True s by simp
    have "t \<longrightarrow> ternary ?a" using Cons.prems(3) by (simp add: ternary_assign)
    from Cons.IH [OF ps tr this]
    obtain res where "pureLoop ps ?a ?s = Some res" "tracked a0 (fst res) (snd res)"
      "t \<longrightarrow> ternary (fst res)" "stepped ps ?a (fst res)"
      by blast
    then show ?thesis using e stepped_assign [OF _ True] by auto
  qed
qed

lemma forced_subset: "l \<in> set (forced a c) \<Longrightarrow> l \<in> set c"
  by (auto simp: forced_def split: if_splits dest: filter_is_subset [THEN subsetD])

lemma forced_entailed:
  assumes "inRange (int (length a)) (clauses p)" and "agrees M a" and "satisfies M p"
    and "l \<in> set (concat (map (forced a) (clauses p)))"
  shows "holds M l"
proof -
  from assms(4) obtain c where c: "c \<in> set (clauses p)" "l \<in> set (forced a c)" by auto
  then have cond: "(\<forall>k \<in> set c. \<not> satisfied a k) \<and> length (filter (unassigned a) c) = 1"
    by (auto simp: forced_def split: if_splits)
  then have ns: "\<forall>k \<in> set c. \<not> satisfied a k" by simp
  obtain x where x: "filter (unassigned a) c = [x]"
    using cond by (cases "filter (unassigned a) c") auto
  have "forced a c = [x]" using cond x by (simp add: forced_def)
  then have f: "filter (unassigned a) c = [l]" using c(2) x by simp
  from assms(3) c(1) obtain k where k: "k \<in> set c" "holds M k" by (auto simp: satisfies_def)
  have rk: "1 \<le> \<bar>k\<bar>" "\<bar>k\<bar> \<le> int (length a)" using assms(1) c(1) k(1) by (auto simp: inRange_def)
  have "unassigned a k"
  proof (rule ccontr)
    assume "\<not> unassigned a k"
    then have "falsified a k" using ns k(1) by (simp add: falsified_def)
    then show False using agrees_falsified [OF assms(2) rk] k(2) by simp
  qed
  then have "k \<in> set (filter (unassigned a) c)" using k(1) by simp
  then have "k = l" using f by simp
  then show ?thesis using k(2) by simp
qed

lemma pureOf_member:
  assumes "l \<in> set (concat (map (pureOf a cs) vs))"
  shows "occurs a cs l \<and> \<not> occurs a cs (- l)"
proof -
  from assms obtain v where "l \<in> set (pureOf a cs v)" by auto
  then show ?thesis by (auto simp: pureOf_def split: if_splits)
qed

lemma occurs_range: "inRange n cs \<Longrightarrow> occurs a cs l \<Longrightarrow> 1 \<le> \<bar>l\<bar> \<and> \<bar>l\<bar> \<le> n"
  by (auto simp: occurs_def inRange_def)

lemma extends_satisfied:
  assumes "extends a' a" and "1 \<le> \<bar>l\<bar>" and "\<bar>l\<bar> \<le> int (length a)" and "satisfied a l"
  shows "satisfied a' l"
proof -
  have "nat (\<bar>l\<bar> - 1) < length a" using assms(2,3) by simp
  moreover have "a ! nat (\<bar>l\<bar> - 1) \<noteq> 0"
    using assms(4) by (auto simp: satisfied_def litTrue_def varValue_def)
  ultimately have "a' ! nat (\<bar>l\<bar> - 1) = a ! nat (\<bar>l\<bar> - 1)"
    using assms(1) by (simp add: extends_def)
  then show ?thesis using assms(4) by (simp add: satisfied_def varValue_def)
qed

lemma extends_trans: "extends a'' a' \<Longrightarrow> extends a' a \<Longrightarrow> extends a'' a"
  by (auto simp: extends_def)

lemma extends_update:
  "a ! j = 0 \<Longrightarrow> extends (a[j := x]) a"
  unfolding extends_def by (metis length_list_update nth_list_update_neq)

lemma stepped_extends: "stepped ps a a' \<Longrightarrow> length a' = length a \<Longrightarrow> extends a' a"
  by (auto simp: stepped_def extends_def)

text \<open>
  An unassigned literal of a clause without satisfied literal that the pure-literal step
  assigns becomes satisfied.
\<close>

lemma pure_step_satisfies:
  assumes "stepped ps a1 a2"
    and "\<forall>l \<in> set ps. 1 \<le> \<bar>l\<bar> \<and> \<not> occurs a1 cs (- l)"
    and "c \<in> set cs" and "\<forall>k \<in> set c. \<not> satisfied a1 k" and "k \<in> set c"
    and "1 \<le> \<bar>k\<bar>" and "\<bar>k\<bar> \<le> int (length a1)"
    and "a2 ! nat (\<bar>k\<bar> - 1) \<noteq> a1 ! nat (\<bar>k\<bar> - 1)"
  shows "satisfied a2 k"
proof -
  let ?j = "nat (\<bar>k\<bar> - 1)"
  have j: "?j < length a1" using assms(6,7) by simp
  with assms(1,8) obtain l where l: "a1 ! ?j = 0" "l \<in> set ps" "nat (\<bar>l\<bar> - 1) = ?j"
    "a2 ! ?j = (if l > 0 then 1 else - 1)"
    unfolding stepped_def by blast
  have l1: "1 \<le> \<bar>l\<bar>" and no: "\<not> occurs a1 cs (- l)" using assms(2) l(2) by auto
  have "\<bar>l\<bar> = \<bar>k\<bar>" using l(3) l1 assms(6) by simp
  then have "l = k \<or> - l = k" by auto
  moreover have "occurs a1 cs k"
    using assms(3,4,5) l(1) by (auto simp: occurs_def unassigned_def varValue_def)
  ultimately have "l = k" using no by auto
  then show ?thesis using l(4) assms(6) by (auto simp: satisfied_def varValue_def litTrue_def)
qed

lemma pure_no_conflict:
  assumes "inRange (int (length a1)) (clauses p)"
    and "stepped ps a1 a2" and "length a2 = length a1"
    and "\<forall>l \<in> set ps. 1 \<le> \<bar>l\<bar> \<and> \<not> occurs a1 (clauses p) (- l)"
    and "\<not> conflict p a1"
  shows "\<not> conflict p a2"
proof
  assume "conflict p a2"
  then obtain c where c: "c \<in> set (clauses p)" "\<forall>l \<in> set c. falsified a2 l"
    by (auto simp: conflict_def)
  have rc: "\<forall>l \<in> set c. 1 \<le> \<bar>l\<bar> \<and> \<bar>l\<bar> \<le> int (length a1)"
    using assms(1) c(1) by (auto simp: inRange_def)
  have ext: "extends a2 a1" using assms(2,3) by (rule stepped_extends)
  have ns: "\<forall>k \<in> set c. \<not> satisfied a1 k"
  proof
    fix k assume k: "k \<in> set c"
    show "\<not> satisfied a1 k"
    proof
      assume "satisfied a1 k"
      then have "satisfied a2 k" using extends_satisfied [OF ext] rc k by blast
      then show False using c(2) k by (auto simp: falsified_def)
    qed
  qed
  from assms(5) c(1) obtain k where k: "k \<in> set c" "\<not> falsified a1 k"
    by (auto simp: conflict_def)
  then have un: "unassigned a1 k" using ns by (auto simp: falsified_def)
  have "falsified a2 k" using c(2) k(1) by simp
  then have "a2 ! nat (\<bar>k\<bar> - 1) \<noteq> a1 ! nat (\<bar>k\<bar> - 1)"
    using un by (auto simp: falsified_def unassigned_def varValue_def)
  then have "satisfied a2 k"
    using pure_step_satisfies [OF assms(2,4) c(1) ns k(1)] rc k(1) by blast
  then show False using \<open>falsified a2 k\<close> by (simp add: falsified_def)
qed

lemma pure_model:
  assumes "inRange (int (length a1)) (clauses p)"
    and "stepped ps a1 a2" and "length a2 = length a1"
    and "\<forall>l \<in> set ps. 1 \<le> \<bar>l\<bar> \<and> \<not> occurs a1 (clauses p) (- l)"
    and "agrees M a1" and "satisfies M p"
  shows "\<exists>M'. agrees M' a2 \<and> satisfies M' p"
proof -
  define M' where "M' v = (if a2 ! nat (v - 1) > 0 then True
                           else if a2 ! nat (v - 1) < 0 then False else M v)" for v
  have ag: "agrees M' a2" by (simp add: agrees_def M'_def)
  have ext: "extends a2 a1" using assms(2,3) by (rule stepped_extends)
  have "satisfies M' p"
    unfolding satisfies_def
  proof
    fix c assume c: "c \<in> set (clauses p)"
    have rc: "\<forall>l \<in> set c. 1 \<le> \<bar>l\<bar> \<and> \<bar>l\<bar> \<le> int (length a1)"
      using assms(1) c by (auto simp: inRange_def)
    show "\<exists>l \<in> set c. holds M' l"
    proof (cases "\<exists>k \<in> set c. satisfied a1 k")
      case True
      then obtain k where k: "k \<in> set c" "satisfied a1 k" by blast
      then have "satisfied a2 k" using extends_satisfied [OF ext] rc by blast
      then have "holds M' k" using agrees_satisfied [OF ag] rc k(1) assms(3) by simp
      then show ?thesis using k(1) by blast
    next
      case False
      then have ns: "\<forall>k \<in> set c. \<not> satisfied a1 k" by simp
      from assms(6) c obtain k where k: "k \<in> set c" "holds M k" by (auto simp: satisfies_def)
      have rk: "1 \<le> \<bar>k\<bar>" "\<bar>k\<bar> \<le> int (length a1)" using rc k(1) by auto
      have "\<not> falsified a1 k" using agrees_falsified [OF assms(5) rk] k(2) by blast
      then have un: "a1 ! nat (\<bar>k\<bar> - 1) = 0"
        using ns k(1) by (auto simp: falsified_def unassigned_def varValue_def)
      have "holds M' k"
      proof (cases "a2 ! nat (\<bar>k\<bar> - 1) = 0")
        case True
        then have "M' \<bar>k\<bar> = M \<bar>k\<bar>" by (simp add: M'_def)
        then show ?thesis using k(2) by (simp add: holds_def)
      next
        case False
        then have "a2 ! nat (\<bar>k\<bar> - 1) \<noteq> a1 ! nat (\<bar>k\<bar> - 1)" using un by simp
        then have "satisfied a2 k"
          using pure_step_satisfies [OF assms(2,4) c ns k(1) rk] by blast
        then show ?thesis using agrees_satisfied [OF ag] rk assms(3) by simp
      qed
      then show ?thesis using k(1) by blast
    qed
  qed
  then show ?thesis using ag by blast
qed

lemma findNext_correct:
  assumes "n \<le> int (length a)" and "1 \<le> v" and "v \<le> n + 1"
  shows "\<exists>r. findNext n a v = Some r \<and> v \<le> r \<and> r \<le> n + 1 \<and>
     (\<forall>w. v \<le> w \<and> w < r \<longrightarrow> a ! nat (w - 1) \<noteq> 0) \<and>
     (r \<le> n \<longrightarrow> a ! nat (r - 1) = 0)"
  using assms
proof (induction n a v rule: findNext.induct)
  case (1 n a v)
  show ?case
  proof (cases "v \<le> n")
    case False
    then show ?thesis using "1.prems" by (simp add: findNext.simps [of n a v])
  next
    case True
    then have g: "vec_get a (v - 1) = Some (a ! nat (v - 1))"
      using "1.prems" by (simp add: vec_get_def)
    show ?thesis
    proof (cases "a ! nat (v - 1) = 0")
      case z: True
      then show ?thesis using True g by (simp add: findNext.simps [of n a v])
    next
      case nz: False
      have "1 \<le> v + 1" "v + 1 \<le> n + 1" using "1.prems" True by simp_all
      from "1.IH" [OF True g nz "1.prems"(1) this]
      obtain r where r: "findNext n a (v + 1) = Some r" "v + 1 \<le> r" "r \<le> n + 1"
        "\<forall>w. v + 1 \<le> w \<and> w < r \<longrightarrow> a ! nat (w - 1) \<noteq> 0" "r \<le> n \<longrightarrow> a ! nat (r - 1) = 0"
        by blast
      have "findNext n a v = Some r"
        using True g nz r(1) by (simp add: findNext.simps [of n a v])
      moreover have "\<forall>w. v \<le> w \<and> w < r \<longrightarrow> a ! nat (w - 1) \<noteq> 0"
      proof (intro allI impI)
        fix w assume "v \<le> w \<and> w < r"
        then have "w = v \<or> (v + 1 \<le> w \<and> w < r)" by auto
        then show "a ! nat (w - 1) \<noteq> 0" using nz r(4) by auto
      qed
      ultimately show ?thesis using r(2,3,5) by simp
    qed
  qed
qed

lemma assign_pos: "0 < n \<Longrightarrow> a[nat (n - 1) := 1] = assign a n"
  by (simp add: assign_def)

lemma assign_neg: "0 < n \<Longrightarrow> a[nat (n - 1) := - 1] = assign a (- n)"
  by (simp add: assign_def)

lemma solve_correct:
  assumes "wellFormed p" and "numVars p < 2147483647"
    and "numVars p \<le> int (length a)" and "1 \<le> i"
  shows "\<exists>r. solve p a i = Some r \<and> solved p a i r"
  using assms(3,4)
proof (induction "nat (numVars p + 1 - i)" arbitrary: a i rule: less_induct)
  case less
  let ?n = "numVars p"
  have n0: "0 \<le> ?n" and wf: "inRange ?n (clauses p)" using assms(1) by (simp_all add: wellFormed_def)
  have rgl: "inRange (int (length b)) (clauses p)" if "length b = length a" for b
    using wf less.prems(1) that by (fastforce simp: inRange_def)
  have cc: "checkConflict p b = Some (conflict p b)" if "length b = length a" for b
    using checkConflict_eq [OF rgl [OF that]] by (simp add: conflict_def)
  show ?case
  proof (cases "conflict p a")
    case True
    have "solve p a i = Some (False, a)"
      using cc [of a] True by (subst solve.simps) simp
    moreover have "\<forall>M. \<not> (agrees M a \<and> satisfies M p)"
      using agrees_conflict [OF _ rgl [of a] True] by auto
    ultimately show ?thesis by (simp add: solved_def)
  next
    case nc: False
    let ?us = "concat (map (forced a) (clauses p))"
    have fu: "findUnitClauses p a = Some ?us" using findUnitClauses_eq [OF rgl [of a]] by simp
    have us1: "\<forall>l \<in> set ?us. 1 \<le> \<bar>l\<bar> \<and> \<bar>l\<bar> \<le> int (length a)"
      using rgl [of a] forced_subset by (fastforce simp: inRange_def)
    have us2: "\<forall>l \<in> set ?us. \<forall>M. agrees M a \<and> satisfies M p \<longrightarrow> holds M l"
      using forced_entailed [OF rgl [of a]] by blast
    from unitLoop_correct [OF rgl [of a] us1 us2 tracked_refl _ nc, of "ternary a"]
    obtain res where res: "unitLoop p ?us a [] = Some res"
      "case res of
        Inl r \<Rightarrow> r = a \<and> (\<forall>M. \<not> (agrees M a \<and> satisfies M p))
      | Inr (a', saved') \<Rightarrow> tracked a a' saved' \<and> \<not> conflict p a' \<and> (ternary a \<longrightarrow> ternary a') \<and>
          (\<forall>M. agrees M a \<and> satisfies M p \<longrightarrow> agrees M a')"
      by auto
    show ?thesis
    proof (cases res)
      case (Inl r)
      then have "solve p a i = Some (False, a)"
        using cc [of a] nc fu res by (subst solve.simps) simp
      then show ?thesis using res(2) Inl by (simp add: solved_def)
    next
      case (Inr q)
      obtain a1 s1 where q: "q = (a1, s1)" by (cases q)
      have tr1: "tracked a a1 s1" and nc1: "\<not> conflict p a1" and t1: "ternary a \<longrightarrow> ternary a1"
        and m1: "\<forall>M. agrees M a \<and> satisfies M p \<longrightarrow> agrees M a1"
        using res(2) Inr q by simp_all
      have len1: "length a1 = length a" using tr1 by (simp add: tracked_def)
      let ?ps = "concat (map (pureOf a1 (clauses p)) [1 .. ?n])"
      have fp: "findPureLiterals p a1 = Some ?ps"
        using findPureLiterals_eq [OF wf _ n0 assms(2), of a1] less.prems(1) len1 by simp
      have ps0: "\<forall>l \<in> set ?ps. occurs a1 (clauses p) l \<and> \<not> occurs a1 (clauses p) (- l)"
        using pureOf_member by blast
      have ps1: "\<forall>l \<in> set ?ps. 1 \<le> \<bar>l\<bar> \<and> \<bar>l\<bar> \<le> int (length a)"
        using ps0 occurs_range [OF wf] less.prems(1) by fastforce
      have ps2: "\<forall>l \<in> set ?ps. 1 \<le> \<bar>l\<bar> \<and> \<not> occurs a1 (clauses p) (- l)"
        using ps0 ps1 by blast
      from pureLoop_correct [OF ps1 tr1 t1]
      obtain res2 where res2: "pureLoop ?ps a1 s1 = Some res2" "tracked a (fst res2) (snd res2)"
        "ternary a \<longrightarrow> ternary (fst res2)" "stepped ?ps a1 (fst res2)"
        by blast
      obtain a2 s2 where q2: "res2 = (a2, s2)" by (cases res2)
      have tr2: "tracked a a2 s2" and t2: "ternary a \<longrightarrow> ternary a2" and st: "stepped ?ps a1 a2"
        using res2 q2 by simp_all
      have len2: "length a2 = length a" using tr2 by (simp add: tracked_def)
      have len21: "length a2 = length a1" using len1 len2 by simp
      have nc2: "\<not> conflict p a2"
        using pure_no_conflict [OF rgl [OF len1] st len21 ps2 nc1] .
      have m2: "\<exists>M'. agrees M' a2 \<and> satisfies M' p" if "agrees M a" "satisfies M p" for M
        using pure_model [OF rgl [OF len1] st len21 ps2, of M] m1 that by blast
      have ext2: "extends a2 a" using tr2 by (rule tracked_extends)
      have pre: "solve p a i =
         (if i > ?n then Some (True, a2)
          else do {
               nextVar \<leftarrow> findNext ?n a2 i;
               if nextVar > ?n then do { c \<leftarrow> checkConflict p a2; Some (\<not> c, a2) }
               else do {
                 a3 \<leftarrow> vec_set a2 (nextVar - 1) 1;
                 (r1, a4) \<leftarrow> solve p a3 (nextVar + 1);
                 if r1 then Some (True, a4)
                 else do {
                   a5 \<leftarrow> vec_set a4 (nextVar - 1) (- 1);
                   (r2, a6) \<leftarrow> solve p a5 (nextVar + 1);
                   if r2 then Some (True, a6)
                   else do {
                     a7 \<leftarrow> vec_set a6 (nextVar - 1) 0;
                     a8 \<leftarrow> restore s2 a7;
                     Some (False, a8)
                   }
                 }
               }
             })"
        using cc [of a] nc fu res(1) Inr q fp res2(1) q2 cc [OF len2] nc2
        by (subst solve.simps) simp
      have cc2: "checkConflict p a2 = Some False" using cc [OF len2] nc2 by simp
      show ?thesis
      proof (cases "i > ?n")
        case True
        then have "solve p a i = Some (True, a2)" using pre by simp
        then show ?thesis using len2 t2 ext2 nc2 True by (simp add: solved_def)
      next
        case False
        then have i: "i \<le> ?n + 1" by simp
        from findNext_correct [OF _ less.prems(2) i, of a2] less.prems(1) len2
        obtain nv where nv: "findNext ?n a2 i = Some nv" "i \<le> nv" "nv \<le> ?n + 1"
          "\<forall>w. i \<le> w \<and> w < nv \<longrightarrow> a2 ! nat (w - 1) \<noteq> 0" "nv \<le> ?n \<longrightarrow> a2 ! nat (nv - 1) = 0"
          by auto
        show ?thesis
        proof (cases "nv > ?n")
          case True
          then have "solve p a i = Some (True, a2)" using pre False nv(1) cc2 by simp
          moreover have "\<forall>v. i \<le> v \<and> v \<le> ?n \<longrightarrow> a2 ! nat (v - 1) \<noteq> 0"
            using nv(4) True by auto
          ultimately show ?thesis using len2 t2 ext2 nc2 by (simp add: solved_def)
        next
          case nvn: False
          have nv0: "0 < nv" using nv(2) less.prems(2) by simp
          have z: "a2 ! nat (nv - 1) = 0" using nv(5) nvn by simp
          have inb: "0 \<le> nv - 1" "nv - 1 < int (length a2)" "nat (nv - 1) < length a2"
            using nv0 nvn less.prems(1) len2 by simp_all
          let ?a3 = "assign a2 nv" and ?a5 = "assign a2 (- nv)"
          have vs3: "vec_set a2 (nv - 1) 1 = Some ?a3"
            using inb by (simp add: vec_set_def assign_pos [OF nv0])
          have vs5: "vec_set ?a3 (nv - 1) (- 1) = Some ?a5"
            using inb nv0 by (simp add: vec_set_def assign_def)
          have vs7: "vec_set ?a5 (nv - 1) 0 = Some a2"
            using inb nv0 z by (simp add: vec_set_def assign_def list_update_same_conv)
          have meas: "nat (?n + 1 - (nv + 1)) < nat (?n + 1 - i)"
            using nv(2) nvn by simp
          have e3: "extends ?a3 a2" and e5: "extends ?a5 a2"
            using z nv0 by (simp_all add: assign_def extends_update)
          from less.hyps [OF meas, of ?a3] less.prems(1) len2 nv0
          obtain r1 where r1: "solve p ?a3 (nv + 1) = Some r1" "solved p ?a3 (nv + 1) r1"
            by auto
          from less.hyps [OF meas, of ?a5] less.prems(1) len2 nv0
          obtain r2 where r2: "solve p ?a5 (nv + 1) = Some r2" "solved p ?a5 (nv + 1) r2"
            by auto
          have below: "snd r ! nat (v - 1) \<noteq> 0"
            if "extends (snd r) b" "extends b a2" "b ! nat (nv - 1) \<noteq> 0"
              "\<forall>v. nv + 1 \<le> v \<and> v \<le> ?n \<longrightarrow> snd r ! nat (v - 1) \<noteq> 0" "i \<le> v" "v \<le> ?n"
            for r :: "bool \<times> int list" and b v
          proof -
            have lb: "length b = length a2" using that(2) by (simp add: extends_def)
            have vb: "nat (v - 1) < length a2"
              using that(5,6) less.prems len2 by simp
            consider "v < nv" | "v = nv" | "nv + 1 \<le> v" by linarith
            then show ?thesis
            proof cases
              case 1
              then have "a2 ! nat (v - 1) \<noteq> 0" using nv(4) that(5) by simp
              then have "b ! nat (v - 1) \<noteq> 0 \<and> b ! nat (v - 1) = a2 ! nat (v - 1)" using that(2) vb by (simp add: extends_def)
              then show ?thesis using that(1) vb lb by (simp add: extends_def)
            next
              case 2
              then show ?thesis using that(1,3) inb lb by (simp add: extends_def)
            next
              case 3
              then show ?thesis using that(4,6) by simp
            qed
          qed
          show ?thesis
          proof (cases "fst r1")
            case True
            have "solve p a i = Some (True, snd r1)"
              using pre False nv(1) nvn vs3 r1(1) True by (cases r1) simp
            moreover have "solved p a i (True, snd r1)"
            proof -
              have p1: "length (snd r1) = length ?a3" "ternary ?a3 \<longrightarrow> ternary (snd r1)"
                "extends (snd r1) ?a3" "\<not> conflict p (snd r1)"
                "\<forall>v. nv + 1 \<le> v \<and> v \<le> ?n \<longrightarrow> snd r1 ! nat (v - 1) \<noteq> 0"
                using r1(2) True by (simp_all add: solved_def)
              have "?a3 ! nat (nv - 1) \<noteq> 0" using inb nv0 by (simp add: assign_def)
              then have "\<forall>v. i \<le> v \<and> v \<le> ?n \<longrightarrow> snd r1 ! nat (v - 1) \<noteq> 0"
                using below [OF p1(3) e3 _ p1(5)] by blast
              moreover have "extends (snd r1) a"
                using p1(3) e3 ext2 extends_trans by blast
              ultimately show ?thesis
                using p1 len2 t2 ternary_assign by (simp add: solved_def)
            qed
            ultimately show ?thesis by simp
          next
            case f1: False
            then have r1'': "snd r1 = ?a3" "\<forall>M. \<not> (agrees M ?a3 \<and> satisfies M p)"
              using r1(2) by (simp_all add: solved_def)
            have r1': "r1 = (False, ?a3)" "\<forall>M. \<not> (agrees M ?a3 \<and> satisfies M p)"
              using f1 r1'' by (cases r1, simp) (rule r1''(2))
            show ?thesis
            proof (cases "fst r2")
              case True
              have "solve p a i = Some (True, snd r2)"
                using pre False nv(1) nvn vs3 r1(1) r1'(1) vs5 r2(1) True by (cases r2) simp
              moreover have "solved p a i (True, snd r2)"
              proof -
                have p2: "length (snd r2) = length ?a5" "ternary ?a5 \<longrightarrow> ternary (snd r2)"
                  "extends (snd r2) ?a5" "\<not> conflict p (snd r2)"
                  "\<forall>v. nv + 1 \<le> v \<and> v \<le> ?n \<longrightarrow> snd r2 ! nat (v - 1) \<noteq> 0"
                  using r2(2) True by (simp_all add: solved_def)
                have "?a5 ! nat (nv - 1) \<noteq> 0" using inb nv0 by (simp add: assign_def)
                then have "\<forall>v. i \<le> v \<and> v \<le> ?n \<longrightarrow> snd r2 ! nat (v - 1) \<noteq> 0"
                  using below [OF p2(3) e5 _ p2(5)] by blast
                moreover have "extends (snd r2) a"
                  using p2(3) e5 ext2 extends_trans by blast
                ultimately show ?thesis
                  using p2 len2 t2 ternary_assign by (simp add: solved_def)
              qed
              ultimately show ?thesis by simp
            next
              case f2: False
              then have r2'': "snd r2 = ?a5" "\<forall>M. \<not> (agrees M ?a5 \<and> satisfies M p)"
                using r2(2) by (simp_all add: solved_def)
              have r2': "r2 = (False, ?a5)" "\<forall>M. \<not> (agrees M ?a5 \<and> satisfies M p)"
                using f2 r2'' by (cases r2, simp) (rule r2''(2))
              have "solve p a i = Some (False, a)"
                using pre False nv(1) nvn vs3 r1(1) r1'(1) vs5 r2(1) r2'(1) vs7
                  restore_tracked [OF tr2] by simp
              moreover have "\<not> (agrees M a \<and> satisfies M p)" for M
              proof
                assume "agrees M a \<and> satisfies M p"
                then obtain M' where M': "agrees M' a2" "satisfies M' p" using m2 by blast
                have rn: "1 \<le> \<bar>nv\<bar>" "\<bar>nv\<bar> \<le> int (length a2)" "1 \<le> \<bar>- nv\<bar>" "\<bar>- nv\<bar> \<le> int (length a2)"
                  using nv0 inb by simp_all
                show False
                proof (cases "M' nv")
                  case True
                  then have "holds M' nv" using nv0 by (simp add: holds_def)
                  then have "agrees M' ?a3" using agrees_assign [OF M'(1) _ rn(1,2)] by simp
                  then show False using r1'(2) M'(2) by blast
                next
                  case False
                  then have "holds M' (- nv)" using nv0 by (simp add: holds_def)
                  then have "agrees M' ?a5" using agrees_assign [OF M'(1) _ rn(3,4)] by simp
                  then show False using r2'(2) M'(2) by blast
                qed
              qed
              ultimately show ?thesis by (simp add: solved_def)
            qed
          qed
        qed
      qed
    qed
  qed
qed

text \<open>
  The exits of a call of \<open>solve\<close> that returns, in the order of the source: the two
  early returns, and the part after the pure-literal loop.
\<close>

lemma solve_phases:
  assumes "solve p a i = Some (b, a')"
  obtains (conflict) "checkConflict p a = Some True" "\<not> b" "a' = a"
  | (unit) us where "checkConflict p a = Some False" "findUnitClauses p a = Some us"
      "unitLoop p us a [] = Some (Inl a')" "\<not> b"
  | (search) us a1 s1 ps a2 s2 where "checkConflict p a = Some False"
      "findUnitClauses p a = Some us" "unitLoop p us a [] = Some (Inr (a1, s1))"
      "findPureLiterals p a1 = Some ps" "pureLoop ps a1 s1 = Some (a2, s2)"
      "(if i > numVars p then do { c \<leftarrow> checkConflict p a2; Some (\<not> c, a2) }
        else do {
          nextVar \<leftarrow> findNext (numVars p) a2 i;
          if nextVar > numVars p then do { c \<leftarrow> checkConflict p a2; Some (\<not> c, a2) }
          else do {
            a3 \<leftarrow> vec_set a2 (nextVar - 1) 1;
            (r1, a4) \<leftarrow> solve p a3 (nextVar + 1);
            if r1 then Some (True, a4)
            else do {
              a5 \<leftarrow> vec_set a4 (nextVar - 1) (- 1);
              (r2, a6) \<leftarrow> solve p a5 (nextVar + 1);
              if r2 then Some (True, a6)
              else do {
                a7 \<leftarrow> vec_set a6 (nextVar - 1) 0;
                a8 \<leftarrow> restore s2 a7;
                Some (False, a8)
              }
            }
          }
        }) = Some (b, a')"
proof -
  from assms obtain c0 where c0: "checkConflict p a = Some c0"
    by (subst (asm) solve.simps) (auto simp: Option.bind_eq_Some_conv)
  show ?thesis
  proof (cases c0)
    case True
    have "solve p a i = Some (False, a)" using c0 True by (subst solve.simps) simp
    then show ?thesis using assms c0 True conflict by simp
  next
    case False
    from assms c0 False obtain us res where us: "findUnitClauses p a = Some us"
      and res: "unitLoop p us a [] = Some res"
      by (subst (asm) solve.simps) (auto simp: Option.bind_eq_Some_conv)
    show ?thesis
    proof (cases res)
      case (Inl r)
      have "solve p a i = Some (False, r)"
        using c0 False us res Inl by (subst solve.simps) simp
      then show ?thesis using assms c0 False us res Inl unit by simp
    next
      case (Inr q)
      obtain a1 s1 where q: "q = (a1, s1)" by (cases q)
      from assms c0 False us res Inr q obtain ps a2 s2
        where ps: "findPureLiterals p a1 = Some ps" and pl: "pureLoop ps a1 s1 = Some (a2, s2)"
        by (subst (asm) solve.simps) (auto simp: Option.bind_eq_Some_conv)
      have "solve p a i =
        (if i > numVars p then do { c \<leftarrow> checkConflict p a2; Some (\<not> c, a2) }
        else do {
          nextVar \<leftarrow> findNext (numVars p) a2 i;
          if nextVar > numVars p then do { c \<leftarrow> checkConflict p a2; Some (\<not> c, a2) }
          else do {
            a3 \<leftarrow> vec_set a2 (nextVar - 1) 1;
            (r1, a4) \<leftarrow> solve p a3 (nextVar + 1);
            if r1 then Some (True, a4)
            else do {
              a5 \<leftarrow> vec_set a4 (nextVar - 1) (- 1);
              (r2, a6) \<leftarrow> solve p a5 (nextVar + 1);
              if r2 then Some (True, a6)
              else do {
                a7 \<leftarrow> vec_set a6 (nextVar - 1) 0;
                a8 \<leftarrow> restore s2 a7;
                Some (False, a8)
              }
            }
          }
        })"
        using c0 False us res Inr q ps pl by (subst solve.simps) simp
      with assms show ?thesis
        using search [OF _ us _ ps pl] c0 False res Inr q by simp
    qed
  qed
qed

lemma solve_branches:
  assumes "(if i > numVars p then do { c \<leftarrow> checkConflict p a2; Some (\<not> c, a2) }
        else do {
          nextVar \<leftarrow> findNext (numVars p) a2 i;
          if nextVar > numVars p then do { c \<leftarrow> checkConflict p a2; Some (\<not> c, a2) }
          else do {
            a3 \<leftarrow> vec_set a2 (nextVar - 1) 1;
            (r1, a4) \<leftarrow> solve p a3 (nextVar + 1);
            if r1 then Some (True, a4)
            else do {
              a5 \<leftarrow> vec_set a4 (nextVar - 1) (- 1);
              (r2, a6) \<leftarrow> solve p a5 (nextVar + 1);
              if r2 then Some (True, a6)
              else do {
                a7 \<leftarrow> vec_set a6 (nextVar - 1) 0;
                a8 \<leftarrow> restore s2 a7;
                Some (False, a8)
              }
            }
          }
        }) = Some (b, a')"
  obtains (beyond) "i > numVars p" "checkConflict p a2 = Some (\<not> b)" "a' = a2"
  | (full) nv where "\<not> i > numVars p" "findNext (numVars p) a2 i = Some nv" "nv > numVars p"
      "checkConflict p a2 = Some (\<not> b)" "a' = a2"
  | (first) nv a3 where "\<not> i > numVars p" "findNext (numVars p) a2 i = Some nv"
      "\<not> nv > numVars p" "vec_set a2 (nv - 1) 1 = Some a3"
      "solve p a3 (nv + 1) = Some (True, a')" "b"
  | (second) nv a3 a4 a5 where "\<not> i > numVars p" "findNext (numVars p) a2 i = Some nv"
      "\<not> nv > numVars p" "vec_set a2 (nv - 1) 1 = Some a3"
      "solve p a3 (nv + 1) = Some (False, a4)" "vec_set a4 (nv - 1) (- 1) = Some a5"
      "solve p a5 (nv + 1) = Some (True, a')" "b"
  | (neither) nv a3 a4 a5 a6 a7 where "\<not> i > numVars p" "findNext (numVars p) a2 i = Some nv"
      "\<not> nv > numVars p" "vec_set a2 (nv - 1) 1 = Some a3"
      "solve p a3 (nv + 1) = Some (False, a4)" "vec_set a4 (nv - 1) (- 1) = Some a5"
      "solve p a5 (nv + 1) = Some (False, a6)" "vec_set a6 (nv - 1) 0 = Some a7"
      "restore s2 a7 = Some a'" "\<not> b"
proof (cases "i > numVars p")
  case True
  then show ?thesis using assms beyond by (auto simp: Option.bind_eq_Some_conv)
next
  case ni: False
  with assms obtain nv where nv: "findNext (numVars p) a2 i = Some nv"
    by (auto simp: Option.bind_eq_Some_conv)
  show ?thesis
  proof (cases "nv > numVars p")
    case True
    then show ?thesis using assms ni nv full by (auto simp: Option.bind_eq_Some_conv)
  next
    case nn: False
    with assms ni nv obtain a3 r1 a4 where a3: "vec_set a2 (nv - 1) 1 = Some a3"
      and r1: "solve p a3 (nv + 1) = Some (r1, a4)"
      by (auto simp: Option.bind_eq_Some_conv)
    show ?thesis
    proof (cases r1)
      case True
      then show ?thesis using assms ni nv nn a3 r1 first by auto
    next
      case f1: False
      with assms ni nv nn a3 r1 obtain a5 r2 a6 where a5: "vec_set a4 (nv - 1) (- 1) = Some a5"
        and r2: "solve p a5 (nv + 1) = Some (r2, a6)"
        by (auto simp: Option.bind_eq_Some_conv)
      show ?thesis
      proof (cases r2)
        case True
        then show ?thesis using assms ni nv nn a3 r1 f1 a5 r2 second by auto
      next
        case f2: False
        with assms ni nv nn a3 r1 f1 a5 r2 obtain a7 where a7: "vec_set a6 (nv - 1) 0 = Some a7"
          and a8: "restore s2 a7 = Some a'" and b: "\<not> b"
          by (auto simp: Option.bind_eq_Some_conv)
        then show ?thesis using ni nv nn a3 r1 f1 a5 r2 f2 neither by auto
      qed
    qed
  qed
qed

text \<open>A call that reaches the pure-literal pass has a \<open>numVars\<close> below the largest \<open>int\<close>.\<close>

lemma findPureLiterals_bound: "findPureLiterals p a = Some ps \<Longrightarrow> numVars p < 2147483647"
  by (auto simp: findPureLiterals_def split: if_splits)


section \<open>The unit propagator\<close>

lemma forced_nothing:
  "(\<exists>k \<in> set c. satisfied a k) \<Longrightarrow> forced a c = []"
  "2 \<le> length (filter (unassigned a) c) \<Longrightarrow> forced a c = []"
  by (auto simp: forced_def)

lemma forced_member:
  "l \<in> set (forced a c) \<longleftrightarrow> (\<forall>k \<in> set c. \<not> satisfied a k) \<and> filter (unassigned a) c = [l]"
proof (cases "(\<forall>k \<in> set c. \<not> satisfied a k) \<and> length (filter (unassigned a) c) = 1")
  case True
  then obtain x where "filter (unassigned a) c = [x]"
    by (cases "filter (unassigned a) c") auto
  then show ?thesis using True by (auto simp: forced_def)
next
  case False
  then show ?thesis by (auto simp: forced_def)
qed

lemma filter_single_distinct:
  assumes "distinct c"
  shows "filter P c = [l] \<longleftrightarrow> l \<in> set c \<and> P l \<and> (\<forall>k \<in> set c. P k \<longrightarrow> k = l)"
proof
  assume f: "filter P c = [l]"
  then have "set (filter P c) = {l}" by simp
  then show "l \<in> set c \<and> P l \<and> (\<forall>k \<in> set c. P k \<longrightarrow> k = l)" by auto
next
  assume r: "l \<in> set c \<and> P l \<and> (\<forall>k \<in> set c. P k \<longrightarrow> k = l)"
  then have s: "set (filter P c) = {l}" by auto
  have d: "distinct (filter P c)" using assms by simp
  have "card (set (filter P c)) = length (filter P c)" using d by (rule distinct_card)
  then have "length (filter P c) = 1" unfolding s by simp
  then obtain x where "filter P c = [x]" by (cases "filter P c") auto
  then show "filter P c = [l]" using s by auto
qed

text \<open>
  Claim C7 (contract of the unit propagator). Whenever every stored literal names a
  variable in \<open>1..length a\<close>, \<open>findUnitClauses\<close> returns, in clause order, one literal for
  each clause that has no satisfied literal and in which scanning finds exactly one
  literal whose variable is unassigned, namely that literal. So the literals returned are
  exactly the literals \<open>l\<close> for which some clause without satisfied literal has \<open>l\<close> as
  its only unassigned literal occurrence; for duplicate-free clauses these are the
  literals \<open>l\<close> of such a clause that are unassigned while every other literal of the
  clause is assigned. A clause with two or more unassigned literals contributes nothing,
  and neither does a clause with a satisfied literal.
\<close>

theorem findUnitClauses_contract:
  assumes "inRange (int (length a)) (clauses p)"
  shows "\<exists>r. findUnitClauses p a = Some r \<and>
     r = concat (map (forced a) (clauses p)) \<and>
     set r = {l. \<exists>c \<in> set (clauses p).
                (\<forall>k \<in> set c. \<not> satisfied a k) \<and> filter (unassigned a) c = [l]} \<and>
     ((\<forall>c \<in> set (clauses p). distinct c) \<longrightarrow>
        set r = {l. \<exists>c \<in> set (clauses p).
                   (\<forall>k \<in> set c. \<not> satisfied a k) \<and> l \<in> set c \<and> unassigned a l \<and>
                   (\<forall>k \<in> set c. unassigned a k \<longrightarrow> k = l)}) \<and>
     (\<forall>c. 2 \<le> length (filter (unassigned a) c) \<longrightarrow> forced a c = []) \<and>
     (\<forall>c. (\<exists>k \<in> set c. satisfied a k) \<longrightarrow> forced a c = [])"
proof -
  let ?r = "concat (map (forced a) (clauses p))"
  have s: "set ?r =
      {l. \<exists>c \<in> set (clauses p). (\<forall>k \<in> set c. \<not> satisfied a k) \<and> filter (unassigned a) c = [l]}"
  proof (rule set_eqI)
    fix l
    have "l \<in> set ?r \<longleftrightarrow> (\<exists>c \<in> set (clauses p). l \<in> set (forced a c))"
      by auto
    then show "l \<in> set ?r \<longleftrightarrow>
        l \<in> {l. \<exists>c \<in> set (clauses p). (\<forall>k \<in> set c. \<not> satisfied a k) \<and> filter (unassigned a) c = [l]}"
      unfolding forced_member by blast
  qed
  have d: "set ?r = {l. \<exists>c \<in> set (clauses p).
                   (\<forall>k \<in> set c. \<not> satisfied a k) \<and> l \<in> set c \<and> unassigned a l \<and>
                   (\<forall>k \<in> set c. unassigned a k \<longrightarrow> k = l)}"
    if "\<forall>c \<in> set (clauses p). distinct c"
    unfolding s using that by (auto simp: filter_single_distinct)
  show ?thesis
    using findUnitClauses_eq [OF assms] s d forced_nothing by simp
qed

theorem findUnitClauses_contract_witness:
  "inRange (int (length [- 1, 0, 0 :: int])) (clauses \<lparr>numVars = 3, clauses = [[1, 2], [- 1, 3], [2, - 3, 1], [- 2]]\<rparr>) \<and>
   findUnitClauses \<lparr>numVars = 3, clauses = [[1, 2], [- 1, 3], [2, - 3, 1], [- 2]]\<rparr> [- 1, 0, 0] = Some [2, - 2]"
proof -
  let ?p = "\<lparr>numVars = 3, clauses = [[1, 2], [- 1, 3], [2, - 3, 1], [- 2]]\<rparr>"
  let ?a = "[- 1, 0, 0 :: int]"
  have h: "inRange (int (length ?a)) (clauses ?p)" by (simp add: inRange_def)
  from findUnitClauses_contract [OF h]
  have "findUnitClauses ?p ?a = Some (concat (map (forced ?a) (clauses ?p)))" by blast
  moreover have "concat (map (forced ?a) (clauses ?p)) = [2, - 2]"
    by (simp add: forced_def satisfied_def unassigned_def varValue_def litTrue_def)
  ultimately show ?thesis using h by simp
qed

section \<open>The pure-literal eliminator\<close>

lemma pureOf_abs: "1 \<le> v \<Longrightarrow> l \<in> set (pureOf a cs v) \<Longrightarrow> \<bar>l\<bar> = v"
  by (auto simp: pureOf_def split: if_splits)

lemma pureOf_strict:
  assumes "sorted_wrt (<) vs" and "\<forall>v \<in> set vs. 1 \<le> v"
  shows "sorted_wrt (<) (map abs (concat (map (pureOf a cs) vs)))"
  using assms
proof (induction vs)
  case Nil
  then show ?case by simp
next
  case (Cons v vs)
  have v: "1 \<le> v" "\<forall>w \<in> set vs. v < w" "\<forall>w \<in> set vs. 1 \<le> w" "sorted_wrt (<) vs"
    using Cons.prems by auto
  have one: "sorted_wrt (<) (map abs (pureOf a cs v))"
    by (simp add: pureOf_def)
  have rest: "\<forall>y \<in> set (concat (map (pureOf a cs) vs)). \<bar>y\<bar> \<in> set vs"
    using pureOf_abs v(3) by fastforce
  have "\<forall>x \<in> set (pureOf a cs v). \<forall>y \<in> set (concat (map (pureOf a cs) vs)). \<bar>x\<bar> < \<bar>y\<bar>"
    using pureOf_abs [OF v(1)] rest v(2) by (metis)
  then show ?case
    using one Cons.IH [OF v(4,3)] by (simp add: sorted_wrt_append)
qed

lemma pureOf_iff:
  assumes "inRange n cs"
  shows "l \<in> set (concat (map (pureOf a cs) [1 .. n])) \<longleftrightarrow>
     unassigned a l \<and> occurs a cs l \<and> \<not> occurs a cs (- l)"
proof
  assume "l \<in> set (concat (map (pureOf a cs) [1 .. n]))"
  then obtain v where "l \<in> set (pureOf a cs v)" by auto
  then show "unassigned a l \<and> occurs a cs l \<and> \<not> occurs a cs (- l)"
    by (auto simp: pureOf_def unassigned_uminus split: if_splits)
next
  assume r: "unassigned a l \<and> occurs a cs l \<and> \<not> occurs a cs (- l)"
  then have rg: "1 \<le> \<bar>l\<bar>" "\<bar>l\<bar> \<le> n" using occurs_range [OF assms] by auto
  have u: "unassigned a \<bar>l\<bar>" using r unassigned_uminus [of a l] by (cases "l < 0") auto
  have "l \<in> set (pureOf a cs \<bar>l\<bar>)"
  proof (cases "l < 0")
    case True
    then have "\<bar>l\<bar> = - l" by simp
    then show ?thesis using r u by (simp add: pureOf_def)
  next
    case False
    then have "\<bar>l\<bar> = l" by simp
    then show ?thesis using r u by (simp add: pureOf_def)
  qed
  then show "l \<in> set (concat (map (pureOf a cs) [1 .. n]))" using rg by auto
qed

text \<open>
  Claim C8 (contract of the pure-literal eliminator). Whenever every stored literal names
  a variable in \<open>1..numVars\<close>, the assignment has \<open>numVars\<close> entries and \<open>numVars\<close> is
  below \<open>2147483647\<close>, the largest value of the type \<open>int\<close>, so that \<open>numVars + 1\<close> is
  computed without overflow, \<open>findPureLiterals\<close> returns its literals in strictly
  increasing order of variable index, hence at most one per variable, and a literal is
  returned exactly when its variable is unassigned and, among the unassigned occurrences
  in clauses without satisfied literal, the literal occurs and its negation does not.
\<close>

theorem findPureLiterals_contract:
  assumes "inRange (numVars p) (clauses p)" and "int (length a) = numVars p"
    and "numVars p < 2147483647"
  shows "\<exists>r. findPureLiterals p a = Some r \<and>
     sorted_wrt (<) (map abs r) \<and>
     (\<forall>l. l \<in> set r \<longleftrightarrow>
        unassigned a l \<and> occurs a (clauses p) l \<and> \<not> occurs a (clauses p) (- l))"
proof -
  have "sorted_wrt (<) [1 .. numVars p]"
    by (simp add: strict_sorted_iff)
  then have "sorted_wrt (<) (map abs (concat (map (pureOf a (clauses p)) [1 .. numVars p])))"
    by (rule pureOf_strict) simp
  then show ?thesis
    using findPureLiterals_eq [OF assms(1) _ _ assms(3), of a] assms(2)
      pureOf_iff [OF assms(1), of _ a]
    by simp
qed

theorem findPureLiterals_contract_witness:
  "inRange (numVars \<lparr>numVars = 4, clauses = [[1, 2], [- 1, 2, 3], [- 3, 4], [3, - 4], [- 2, - 4]]\<rparr>)
     (clauses \<lparr>numVars = 4, clauses = [[1, 2], [- 1, 2, 3], [- 3, 4], [3, - 4], [- 2, - 4]]\<rparr>) \<and>
   int (length [0, 0, 0, 1 :: int]) =
     numVars \<lparr>numVars = 4, clauses = [[1, 2], [- 1, 2, 3], [- 3, 4], [3, - 4], [- 2, - 4]]\<rparr> \<and>
   numVars \<lparr>numVars = 4, clauses = [[1, 2], [- 1, 2, 3], [- 3, 4], [3, - 4], [- 2, - 4]]\<rparr> < 2147483647 \<and>
   (\<exists>r. findPureLiterals \<lparr>numVars = 4, clauses = [[1, 2], [- 1, 2, 3], [- 3, 4], [3, - 4], [- 2, - 4]]\<rparr>
          [0, 0, 0, 1] = Some r \<and> sorted_wrt (<) (map abs r) \<and> 3 \<in> set r \<and> 2 \<notin> set r \<and> - 2 \<notin> set r)"
proof -
  let ?p = "\<lparr>numVars = 4, clauses = [[1, 2], [- 1, 2, 3], [- 3, 4], [3, - 4], [- 2, - 4]]\<rparr>"
  let ?a = "[0, 0, 0, 1 :: int]"
  have h1: "inRange (numVars ?p) (clauses ?p)" by (simp add: inRange_def)
  have h2: "int (length ?a) = numVars ?p" by simp
  have h3: "numVars ?p < 2147483647" by simp
  from findPureLiterals_contract [OF h1 h2 h3]
  obtain r where r: "findPureLiterals ?p ?a = Some r" "sorted_wrt (<) (map abs r)"
    "\<forall>l. l \<in> set r \<longleftrightarrow>
        unassigned ?a l \<and> occurs ?a (clauses ?p) l \<and> \<not> occurs ?a (clauses ?p) (- l)"
    by blast
  have "3 \<in> set r"
    unfolding r(3) [rule_format]
    by (simp add: occurs_def satisfied_def unassigned_def varValue_def litTrue_def)
  moreover have "2 \<notin> set r"
    unfolding r(3) [rule_format]
    by (simp add: occurs_def satisfied_def unassigned_def varValue_def litTrue_def)
  moreover have "- 2 \<notin> set r"
    unfolding r(3) [rule_format]
    by (simp add: occurs_def satisfied_def unassigned_def varValue_def litTrue_def)
  ultimately show ?thesis using h1 h2 h3 r(1,2) by blast
qed

text \<open>
  The bound on \<open>numVars\<close> is needed. For the problem with \<open>2147483647\<close> variables and no
  clause, and the assignment with every variable unassigned, every stored literal is in
  range and the assignment has \<open>numVars\<close> entries, but \<open>findPureLiterals\<close> returns no
  list: the size \<open>problem.numVars + 1\<close> of its flag vectors overflows.
\<close>

theorem findPureLiterals_contract_counterexample:
  "inRange (numVars \<lparr>numVars = 2147483647, clauses = []\<rparr>)
     (clauses \<lparr>numVars = 2147483647, clauses = []\<rparr>) \<and>
   int (length (allUnassigned \<lparr>numVars = 2147483647, clauses = []\<rparr>)) =
     numVars \<lparr>numVars = 2147483647, clauses = []\<rparr> \<and>
   findPureLiterals \<lparr>numVars = 2147483647, clauses = []\<rparr>
     (allUnassigned \<lparr>numVars = 2147483647, clauses = []\<rparr>) = None"
  by (simp add: inRange_def allUnassigned_def findPureLiterals_def)

section \<open>The driver from the initial assignment\<close>

lemma allUnassigned_facts:
  assumes "wellFormed p"
  shows "int (length (allUnassigned p)) = numVars p" "ternary (allUnassigned p)"
    "agrees M (allUnassigned p)" "\<forall>x \<in> set (allUnassigned p). x = 0"
  using assms by (simp_all add: wellFormed_def allUnassigned_def ternary_def agrees_def)

lemma solve_top:
  assumes "wellFormed p" and "numVars p < 2147483647"
  obtains r where "solve p (allUnassigned p) 1 = Some r" "solved p (allUnassigned p) 1 r"
  using solve_correct [OF assms, of "allUnassigned p" 1] allUnassigned_facts(1) [OF assms(1)]
  by auto

lemma solved_success:
  assumes "wellFormed p" and "solved p (allUnassigned p) 1 (True, a')"
  shows "length a' = nat (numVars p)" "\<forall>x \<in> set a'. x = 1 \<or> x = - 1"
    "\<forall>c \<in> set (clauses p). \<exists>l \<in> set c. satisfied a' l"
proof -
  have n: "int (length (allUnassigned p)) = numVars p" and t: "ternary (allUnassigned p)"
    using allUnassigned_facts [OF assms(1)] by simp_all
  have len: "length a' = length (allUnassigned p)" and t': "ternary a'"
    and nc: "\<not> conflict p a'"
    and tot: "\<forall>v. 1 \<le> v \<and> v \<le> numVars p \<longrightarrow> a' ! nat (v - 1) \<noteq> 0"
    using assms(2) t by (simp_all add: solved_def)
  show "length a' = nat (numVars p)" using len n by simp
  have nz: "x \<noteq> 0" if "x \<in> set a'" for x
  proof -
    from that obtain j where j: "j < length a'" "a' ! j = x" by (auto simp: in_set_conv_nth)
    then have "1 \<le> int j + 1 \<and> int j + 1 \<le> numVars p" using len n by simp
    then have "a' ! nat (int j + 1 - 1) \<noteq> 0" using tot by blast
    then show ?thesis using j(2) by simp
  qed
  show "\<forall>x \<in> set a'. x = 1 \<or> x = - 1"
    using t' nz unfolding ternary_def by blast
  show "\<forall>c \<in> set (clauses p). \<exists>l \<in> set c. satisfied a' l"
  proof
    fix c assume c: "c \<in> set (clauses p)"
    then obtain l where l: "l \<in> set c" "\<not> falsified a' l"
      using nc by (auto simp: conflict_def)
    have "1 \<le> \<bar>l\<bar> \<and> \<bar>l\<bar> \<le> numVars p"
      using assms(1) c l(1) by (auto simp: wellFormed_def inRange_def)
    then have "\<not> unassigned a' l" using tot by (simp add: unassigned_def varValue_def)
    then show "\<exists>l \<in> set c. satisfied a' l" using l by (auto simp: falsified_def)
  qed
qed


text \<open>
  Claim C1 (completeness of the driver). For every problem that satisfies the invariant of
  the problem model and has fewer than \<open>2147483647\<close> variables, so that \<open>numVars + 1\<close> is
  a value of the type \<open>int\<close>, \<open>solve\<close> called with start index \<open>1\<close> on the assignment with
  every variable unassigned returns, and it returns true if and only if some total
  assignment of truth values to the variables satisfies at least one literal of every
  stored clause.
\<close>

theorem solve_complete:
  assumes "wellFormed p" and "numVars p < 2147483647"
  shows "\<exists>b a'. solve p (allUnassigned p) 1 = Some (b, a') \<and> (b \<longleftrightarrow> satisfiable p)"
proof -
  from solve_top [OF assms] obtain r
    where r: "solve p (allUnassigned p) 1 = Some r" "solved p (allUnassigned p) 1 r"
    by blast
  have "fst r \<longleftrightarrow> satisfiable p"
  proof (cases "fst r")
    case True
    then have s: "solved p (allUnassigned p) 1 (True, snd r)" using r(2) by (cases r) simp
    define M where "M v \<longleftrightarrow> snd r ! nat (v - 1) > 0" for v :: int
    have ag: "agrees M (snd r)" by (auto simp: agrees_def M_def)
    have "satisfies M p"
      unfolding satisfies_def
    proof
      fix c assume c: "c \<in> set (clauses p)"
      then obtain l where l: "l \<in> set c" "satisfied (snd r) l"
        using solved_success(3) [OF assms(1) s] by blast
      have "1 \<le> \<bar>l\<bar> \<and> \<bar>l\<bar> \<le> int (length (snd r))"
        using assms(1) c l(1) solved_success(1) [OF assms(1) s]
        by (auto simp: wellFormed_def inRange_def)
      then have "holds M l" using agrees_satisfied [OF ag _ _ l(2)] by simp
      then show "\<exists>l \<in> set c. holds M l" using l(1) by blast
    qed
    then show ?thesis using True by (auto simp: satisfiable_def)
  next
    case False
    then have "\<forall>M. \<not> (agrees M (allUnassigned p) \<and> satisfies M p)"
      using r(2) by (simp add: solved_def)
    then have "\<not> satisfiable p"
      using allUnassigned_facts(3) [OF assms(1)] by (simp add: satisfiable_def)
    then show ?thesis using False by simp
  qed
  then show ?thesis using r(1) by (cases r) simp
qed

theorem solve_complete_witness:
  "wellFormed \<lparr>numVars = 2, clauses = [[1, 2], [- 1, 2]]\<rparr> \<and>
   numVars \<lparr>numVars = 2, clauses = [[1, 2], [- 1, 2]]\<rparr> < 2147483647 \<and>
   solve \<lparr>numVars = 2, clauses = [[1, 2], [- 1, 2]]\<rparr>
     (allUnassigned \<lparr>numVars = 2, clauses = [[1, 2], [- 1, 2]]\<rparr>) 1 = Some (True, [1, 1]) \<and>
   satisfiable \<lparr>numVars = 2, clauses = [[1, 2], [- 1, 2]]\<rparr>"
proof -
  let ?p = "\<lparr>numVars = 2, clauses = [[1, 2], [- 1, 2]]\<rparr>"
  have w: "wellFormed ?p" by (simp add: wellFormed_def inRange_def)
  have n: "numVars ?p < 2147483647" by simp
  have e: "solve ?p (allUnassigned ?p) 1 = Some (True, [1, 1])" by code_simp
  from solve_complete [OF w n] e have "satisfiable ?p" by auto
  with w n e show ?thesis by simp
qed

text \<open>
  The bound on \<open>numVars\<close> is needed. The input \<open>p cnf 2147483647 0\<close> is read as the problem
  with \<open>2147483647\<close> variables and no clause. It satisfies the invariant of the problem
  model and every total assignment satisfies it, but \<open>solve\<close> returns no verdict: its
  call of \<open>findPureLiterals\<close> overflows in \<open>problem.numVars + 1\<close>.
\<close>

theorem solve_complete_counterexample:
  "parseDIMACS [''p cnf 2147483647 0''] = Some \<lparr>numVars = 2147483647, clauses = []\<rparr> \<and>
   wellFormed \<lparr>numVars = 2147483647, clauses = []\<rparr> \<and>
   satisfiable \<lparr>numVars = 2147483647, clauses = []\<rparr> \<and>
   solve \<lparr>numVars = 2147483647, clauses = []\<rparr>
     (allUnassigned \<lparr>numVars = 2147483647, clauses = []\<rparr>) 1 = None"
proof -
  let ?p = "\<lparr>numVars = 2147483647, clauses = []\<rparr>"
  have a: "parseDIMACS [''p cnf 2147483647 0''] = Some ?p" by code_simp
  have b: "wellFormed ?p" by (simp add: wellFormed_def inRange_def)
  have c: "satisfiable ?p" by (simp add: satisfiable_def satisfies_def)
  have d: "solve ?p a 1 = None" for a
    by (subst solve.simps)
      (simp add: checkConflict_def findUnitClauses_def findPureLiterals_def)
  from a b c d show ?thesis by simp
qed



section \<open>Backtracking\<close>

lemma unitLoop_frame:
  assumes "unitLoop p us a saved = Some res" and "tracked a0 a saved"
  shows "case res of Inl r \<Rightarrow> r = a0 | Inr (a', saved') \<Rightarrow> tracked a0 a' saved'"
  using assms
proof (induction us arbitrary: a saved)
  case Nil
  then show ?case by auto
next
  case (Cons l us)
  from Cons.prems(1) obtain val where g: "vec_get a (\<bar>l\<bar> - 1) = Some val"
    by (cases "vec_get a (\<bar>l\<bar> - 1)") simp_all
  then have rg: "1 \<le> \<bar>l\<bar>" "\<bar>l\<bar> \<le> int (length a)" and val: "val = varValue a l"
    by (auto simp: vec_get_def varValue_def split: if_splits)
  show ?case
  proof (cases "val = 0")
    case False
    then have "unitLoop p us a saved = Some res" using Cons.prems(1) g by simp
    then show ?thesis using Cons.IH Cons.prems(2) by blast
  next
    case True
    let ?a = "assign a l" and ?s = "saved @ [(\<bar>l\<bar> - 1, 0)]"
    have s: "vec_set a (\<bar>l\<bar> - 1) (if l > 0 then 1 else - 1) = Some ?a"
      using rg by (rule vec_set_assign)
    have tr: "tracked a0 ?a ?s" using Cons.prems(2) rg True val by (simp add: tracked_assign)
    from Cons.prems(1) g True s obtain c where c: "checkConflict p ?a = Some c"
      by (cases "checkConflict p ?a") simp_all
    show ?thesis
    proof (cases c)
      case True
      then have "res = Inl a0"
        using Cons.prems(1) g \<open>val = 0\<close> s c restore_tracked [OF tr] by simp
      then show ?thesis by simp
    next
      case False
      then have "unitLoop p us ?a ?s = Some res"
        using Cons.prems(1) g \<open>val = 0\<close> s c by simp
      then show ?thesis using Cons.IH tr by blast
    qed
  qed
qed

lemma collectPure_Some:
  assumes "collectPure a ps ns vars acc = Some r"
  shows "\<forall>v \<in> set vars. v \<le> int (length a)"
  using assms
proof (induction vars arbitrary: acc r)
  case Nil
  then show ?case by simp
next
  case (Cons v vars)
  from Cons.prems obtain val where g: "vec_get a (v - 1) = Some val"
    by (cases "vec_get a (v - 1)") simp_all
  then have v: "v \<le> int (length a)" by (auto simp: vec_get_def split: if_splits)
  have "\<exists>acc' r'. collectPure a ps ns vars acc' = Some r'"
    using Cons.prems g by (auto split: if_splits simp: Option.bind_eq_Some_conv)
  then show ?case using Cons.IH v by auto
qed

lemma findPureLiterals_Some:
  assumes "findPureLiterals p a = Some r" and "0 \<le> numVars p"
  shows "numVars p \<le> int (length a)"
proof (cases "numVars p = 0")
  case True
  then show ?thesis by simp
next
  case False
  from assms(1) obtain ps ns r' where "collectPure a ps ns [1 .. numVars p] [] = Some r'"
    by (auto simp: findPureLiterals_def Option.bind_eq_Some_conv split: if_splits)
  then have "\<forall>v \<in> set [1 .. numVars p]. v \<le> int (length a)" by (rule collectPure_Some)
  then show ?thesis using assms(2) False by simp
qed

lemma pureLoop_length:
  "pureLoop ps a saved = Some (a', saved') \<Longrightarrow> length a' = length a"
proof (induction ps arbitrary: a saved)
  case Nil
  then show ?case by simp
next
  case (Cons l ps)
  then show ?case
    by (fastforce simp: Option.bind_eq_Some_conv vec_set_def split: if_splits)
qed

lemma findNext_below: "i < 1 \<Longrightarrow> i \<le> n \<Longrightarrow> findNext n a i = None"
  by (subst findNext.simps) (simp add: vec_get_def)

lemma solve_early:
  assumes "0 \<le> numVars p"
    and "int (length a) < numVars p \<or> i < 1 \<or> 2147483647 \<le> numVars p"
    and "solve p a i = Some (b, a')"
  shows "\<not> b \<and> a' = a"
proof -
  from assms(3) obtain c0 where c0: "checkConflict p a = Some c0"
    by (subst (asm) solve.simps) (auto simp: Option.bind_eq_Some_conv)
  show ?thesis
  proof (cases c0)
    case True
    then show ?thesis using assms(3) c0 by (subst (asm) solve.simps) simp
  next
    case False
    from assms(3) c0 False obtain us res where us: "findUnitClauses p a = Some us"
      and res: "unitLoop p us a [] = Some res"
      by (subst (asm) solve.simps) (auto simp: Option.bind_eq_Some_conv)
    from unitLoop_frame [OF res tracked_refl]
    have fr: "case res of Inl r \<Rightarrow> r = a | Inr (a1, s1) \<Rightarrow> tracked a a1 s1" .
    show ?thesis
    proof (cases res)
      case (Inl r)
      then show ?thesis using assms(3) c0 False us res fr
        by (subst (asm) solve.simps) simp
    next
      case (Inr q)
      obtain a1 s1 where q: "q = (a1, s1)" by (cases q)
      have len1: "length a1 = length a" using fr Inr q by (simp add: tracked_def)
      from assms(3) c0 False us res Inr q obtain ps a2 s2
        where ps: "findPureLiterals p a1 = Some ps" and pl: "pureLoop ps a1 s1 = Some (a2, s2)"
        by (subst (asm) solve.simps) (auto simp: Option.bind_eq_Some_conv)
      have n: "numVars p \<le> int (length a)"
        using findPureLiterals_Some [OF ps assms(1)] len1 by simp
      then have i: "i < 1" using assms(2) findPureLiterals_bound [OF ps] by simp
      then have "findNext (numVars p) a2 i = None" using assms(1) by (simp add: findNext_below)
      moreover have "\<not> i > numVars p" using i assms(1) by simp
      ultimately have "solve p a i = None"
        using c0 False us res Inr q ps pl by (subst solve.simps) simp
      then show ?thesis using assms(3) by simp
    qed
  qed
qed

text \<open>
  Claim C5 (backtracking purity). For every problem that satisfies the invariant of the
  problem model, every assignment and every start index: if the call of \<open>solve\<close>
  returns false, the assignment it leaves behind is the assignment it was called with.
\<close>

theorem solve_false_restores:
  assumes "wellFormed p" and "solve p a i = Some (False, a')"
  shows "a' = a"
proof (cases "numVars p \<le> int (length a) \<and> 1 \<le> i \<and> numVars p < 2147483647")
  case True
  then show ?thesis
    using solve_correct [OF assms(1), of a i] assms(2) by (auto simp: solved_def)
next
  case False
  then have "int (length a) < numVars p \<or> i < 1 \<or> 2147483647 \<le> numVars p" by auto
  then show ?thesis
    using solve_early [OF _ _ assms(2)] assms(1) by (simp add: wellFormed_def)
qed

theorem solve_false_restores_witness:
  "wellFormed \<lparr>numVars = 2, clauses = [[1, 2], [1, - 2], [- 1, 2], [- 1, - 2]]\<rparr> \<and>
   solve \<lparr>numVars = 2, clauses = [[1, 2], [1, - 2], [- 1, 2], [- 1, - 2]]\<rparr> [0, 0] 1
     = Some (False, [0, 0])"
proof -
  let ?p = "\<lparr>numVars = 2, clauses = [[1, 2], [1, - 2], [- 1, 2], [- 1, - 2]]\<rparr>"
  have w: "wellFormed ?p" by (simp add: wellFormed_def inRange_def)
  have e: "solve ?p [0, 0] 1 = Some (False, [0, 0])" by code_simp
  from solve_false_restores [OF w e] e w show ?thesis by simp
qed

section \<open>Soundness of the model\<close>

text \<open>
  What the scans have seen when they return a value: every vector access they made was
  within bounds.
\<close>

lemma vec_get_Some:
  "vec_get a (\<bar>l\<bar> - 1) = Some val \<Longrightarrow> 1 \<le> \<bar>l\<bar> \<and> \<bar>l\<bar> \<le> int (length a) \<and> val = varValue a l"
  by (auto simp: vec_get_def varValue_def split: if_splits)

lemma clauseFalsified_False:
  assumes "clauseFalsified a c = Some False"
  shows "\<exists>l \<in> set c. int (length a) < \<bar>l\<bar> \<or>
     (1 \<le> \<bar>l\<bar> \<and> \<bar>l\<bar> \<le> int (length a) \<and> \<not> falsified a l)"
  using assms
proof (induction c)
  case Nil
  then show ?case by simp
next
  case (Cons l c)
  show ?case
  proof (cases "\<bar>l\<bar> > int (length a)")
    case True
    then show ?thesis by auto
  next
    case False
    with Cons.prems obtain val where g: "vec_get a (\<bar>l\<bar> - 1) = Some val"
      by (cases "vec_get a (\<bar>l\<bar> - 1)") simp_all
    note r = vec_get_Some [OF g]
    show ?thesis
    proof (cases "falsified a l")
      case True
      then have "clauseFalsified a c = Some False"
        using Cons.prems False g r
        by (auto simp: falsified_def satisfied_def unassigned_def split: if_splits)
      then show ?thesis using Cons.IH by auto
    next
      case nf: False
      then show ?thesis using r by auto
    qed
  qed
qed

lemma conflictIn_False:
  "conflictIn a cs = Some False \<Longrightarrow> \<forall>c \<in> set cs. clauseFalsified a c = Some False"
proof (induction cs)
  case Nil
  then show ?case by simp
next
  case (Cons c cs)
  from Cons.prems obtain f where f: "clauseFalsified a c = Some f"
    by (cases "clauseFalsified a c") simp_all
  then show ?case using Cons by (cases f) simp_all
qed

lemma clauseSat_Some:
  assumes "clauseSat a c = Some s"
  shows "if s then \<exists>l \<in> set c. 1 \<le> \<bar>l\<bar> \<and> \<bar>l\<bar> \<le> int (length a) \<and> satisfied a l
         else \<forall>l \<in> set c. 1 \<le> \<bar>l\<bar> \<and> \<bar>l\<bar> \<le> int (length a)"
  using assms
proof (induction c)
  case Nil
  then show ?case by simp
next
  case (Cons l c)
  from Cons.prems obtain val where g: "vec_get a (\<bar>l\<bar> - 1) = Some val"
    by (cases "vec_get a (\<bar>l\<bar> - 1)") simp_all
  note r = vec_get_Some [OF g]
  show ?case
  proof (cases "litTrue l val")
    case True
    then show ?thesis using Cons.prems g r by (auto simp: satisfied_def)
  next
    case False
    then have "clauseSat a c = Some s" using Cons.prems g by simp
    then show ?thesis using Cons.IH r by (auto split: if_splits)
  qed
qed

lemma markClause_Some:
  assumes "markClause a c (ps, ns) = Some r" and "length ps = m" and "length ns = m"
  shows "length (fst r) = m \<and> length (snd r) = m \<and>
     (\<forall>l \<in> set c. unassigned a l \<longrightarrow> \<bar>l\<bar> < int m)"
  using assms
proof (induction c arbitrary: ps ns)
  case Nil
  then show ?case by auto
next
  case (Cons l c)
  from Cons.prems(1) obtain val where g: "vec_get a (\<bar>l\<bar> - 1) = Some val"
    by (cases "vec_get a (\<bar>l\<bar> - 1)") simp_all
  note r = vec_get_Some [OF g]
  show ?case
  proof (cases "val = 0")
    case False
    then have "markClause a c (ps, ns) = Some r" using Cons.prems(1) g by simp
    then show ?thesis using Cons.IH Cons.prems(2,3) False r by (auto simp: unassigned_def)
  next
    case True
    show ?thesis
    proof (cases "l > 0")
      case pos: True
      from Cons.prems(1) g True pos obtain ps' where ps': "vec_set ps \<bar>l\<bar> True = Some ps'"
        and m: "markClause a c (ps', ns) = Some r"
        by (auto simp: Option.bind_eq_Some_conv)
      have "\<bar>l\<bar> < int m" "length ps' = m"
        using ps' Cons.prems(2) by (auto simp: vec_set_def split: if_splits)
      then show ?thesis using Cons.IH [OF m _ Cons.prems(3)] by auto
    next
      case neg: False
      from Cons.prems(1) g True neg obtain ns' where ns': "vec_set ns \<bar>l\<bar> True = Some ns'"
        and m: "markClause a c (ps, ns') = Some r"
        by (auto simp: Option.bind_eq_Some_conv)
      have "\<bar>l\<bar> < int m" "length ns' = m"
        using ns' Cons.prems(3) by (auto simp: vec_set_def split: if_splits)
      then show ?thesis using Cons.IH [OF m Cons.prems(2)] by auto
    qed
  qed
qed

lemma markClauses_Some:
  assumes "markClauses a cs (ps, ns) = Some r" and "length ps = m" and "length ns = m"
  shows "\<forall>c \<in> set cs.
     (\<exists>l \<in> set c. 1 \<le> \<bar>l\<bar> \<and> \<bar>l\<bar> \<le> int (length a) \<and> satisfied a l) \<or>
     (\<forall>l \<in> set c. 1 \<le> \<bar>l\<bar> \<and> \<bar>l\<bar> \<le> int (length a) \<and> (unassigned a l \<longrightarrow> \<bar>l\<bar> < int m))"
  using assms
proof (induction cs arbitrary: ps ns)
  case Nil
  then show ?case by simp
next
  case (Cons c cs)
  from Cons.prems(1) obtain s where s: "clauseSat a c = Some s"
    by (cases "clauseSat a c") simp_all
  note cs = clauseSat_Some [OF s]
  show ?case
  proof (cases s)
    case True
    then have "markClauses a cs (ps, ns) = Some r" using Cons.prems(1) s by simp
    then show ?thesis using Cons.IH Cons.prems(2,3) cs True by auto
  next
    case False
    with Cons.prems(1) s obtain q where q: "markClause a c (ps, ns) = Some q"
      and m: "markClauses a cs q = Some r"
      by (auto simp: Option.bind_eq_Some_conv)
    note mc = markClause_Some [OF q Cons.prems(2,3)]
    have "markClauses a cs (fst q, snd q) = Some r" using m by simp
    from Cons.IH [OF this] mc have "\<forall>c \<in> set cs.
       (\<exists>l \<in> set c. 1 \<le> \<bar>l\<bar> \<and> \<bar>l\<bar> \<le> int (length a) \<and> satisfied a l) \<or>
       (\<forall>l \<in> set c. 1 \<le> \<bar>l\<bar> \<and> \<bar>l\<bar> \<le> int (length a) \<and> (unassigned a l \<longrightarrow> \<bar>l\<bar> < int m))"
      by simp
    moreover have "\<forall>l \<in> set c. 1 \<le> \<bar>l\<bar> \<and> \<bar>l\<bar> \<le> int (length a) \<and> (unassigned a l \<longrightarrow> \<bar>l\<bar> < int m)"
      using cs False mc by simp
    ultimately show ?thesis by simp
  qed
qed

lemma findPureLiterals_scanned:
  assumes "findPureLiterals p a = Some ps"
  shows "numVars p \<le> int (length a)"
    and "\<forall>c \<in> set (clauses p).
     (\<exists>l \<in> set c. 1 \<le> \<bar>l\<bar> \<and> \<bar>l\<bar> \<le> int (length a) \<and> satisfied a l) \<or>
     (\<forall>l \<in> set c. 1 \<le> \<bar>l\<bar> \<and> \<bar>l\<bar> \<le> int (length a) \<and> (unassigned a l \<longrightarrow> \<bar>l\<bar> \<le> numVars p))"
proof -
  let ?f = "replicate (nat (numVars p + 1)) False"
  from assms obtain r where r: "markClauses a (clauses p) (?f, ?f) = Some r"
    and c: "collectPure a (fst r) (snd r) [1 .. numVars p] [] = Some ps"
    by (auto simp: findPureLiterals_def Option.bind_eq_Some_conv split: if_splits)
  from collectPure_Some [OF c] show "numVars p \<le> int (length a)"
    by (cases "1 \<le> numVars p") auto
  have b: "\<bar>l\<bar> \<le> numVars p" if "\<bar>l\<bar> < int (nat (numVars p + 1))" for l :: int
    using that by (cases "0 \<le> numVars p + 1") auto
  note mc = markClauses_Some [OF r length_replicate length_replicate]
  show "\<forall>c \<in> set (clauses p).
     (\<exists>l \<in> set c. 1 \<le> \<bar>l\<bar> \<and> \<bar>l\<bar> \<le> int (length a) \<and> satisfied a l) \<or>
     (\<forall>l \<in> set c. 1 \<le> \<bar>l\<bar> \<and> \<bar>l\<bar> \<le> int (length a) \<and> (unassigned a l \<longrightarrow> \<bar>l\<bar> \<le> numVars p))"
  proof
    fix c assume "c \<in> set (clauses p)"
    with mc have "(\<exists>l \<in> set c. 1 \<le> \<bar>l\<bar> \<and> \<bar>l\<bar> \<le> int (length a) \<and> satisfied a l) \<or>
      (\<forall>l \<in> set c. 1 \<le> \<bar>l\<bar> \<and> \<bar>l\<bar> \<le> int (length a) \<and>
         (unassigned a l \<longrightarrow> \<bar>l\<bar> < int (nat (numVars p + 1))))"
      by blast
    then show "(\<exists>l \<in> set c. 1 \<le> \<bar>l\<bar> \<and> \<bar>l\<bar> \<le> int (length a) \<and> satisfied a l) \<or>
      (\<forall>l \<in> set c. 1 \<le> \<bar>l\<bar> \<and> \<bar>l\<bar> \<le> int (length a) \<and> (unassigned a l \<longrightarrow> \<bar>l\<bar> \<le> numVars p))"
      using b by blast
  qed
qed

lemma pureLoop_frame:
  assumes "pureLoop ps a saved = Some (a', saved')" and "tracked a0 a saved"
  shows "tracked a0 a' saved'"
  using assms
proof (induction ps arbitrary: a saved)
  case Nil
  then show ?case by simp
next
  case (Cons l ps)
  from Cons.prems(1) obtain val where g: "vec_get a (\<bar>l\<bar> - 1) = Some val"
    by (cases "vec_get a (\<bar>l\<bar> - 1)") simp_all
  note r = vec_get_Some [OF g]
  show ?case
  proof (cases "val = 0")
    case False
    then have "pureLoop ps a saved = Some (a', saved')" using Cons.prems(1) g by simp
    then show ?thesis using Cons.IH Cons.prems(2) by blast
  next
    case True
    have s: "vec_set a (\<bar>l\<bar> - 1) (if l > 0 then 1 else - 1) = Some (assign a l)"
      using r by (simp add: vec_set_assign)
    have tr: "tracked a0 (assign a l) (saved @ [(\<bar>l\<bar> - 1, 0)])"
      using Cons.prems(2) r True by (simp add: tracked_assign)
    have "pureLoop ps (assign a l) (saved @ [(\<bar>l\<bar> - 1, 0)]) = Some (a', saved')"
      using Cons.prems(1) g True s by simp
    then show ?thesis using Cons.IH tr by blast
  qed
qed

lemma findNext_Some:
  assumes "findNext n a i = Some nv"
  shows "(\<forall>w. i \<le> w \<and> w < nv \<longrightarrow> 1 \<le> w \<and> w \<le> int (length a) \<and> a ! nat (w - 1) \<noteq> 0) \<and>
     (nv \<le> n \<longrightarrow> 1 \<le> nv \<and> nv \<le> int (length a) \<and> a ! nat (nv - 1) = 0)"
  using assms
proof (induction n a i rule: findNext.induct)
  case (1 n a v)
  show ?case
  proof (cases "v \<le> n")
    case False
    then have "nv = v" using "1.prems" by (simp add: findNext.simps [of n a v])
    then show ?thesis using False by simp
  next
    case True
    with "1.prems" obtain val where g: "vec_get a (v - 1) = Some val"
      by (cases "vec_get a (v - 1)") (simp_all add: findNext.simps [of n a v])
    then have r: "1 \<le> v" "v \<le> int (length a)" "val = a ! nat (v - 1)"
      by (auto simp: vec_get_def split: if_splits)
    show ?thesis
    proof (cases "val = 0")
      case z: True
      then have "nv = v" using "1.prems" True g by (simp add: findNext.simps [of n a v])
      then show ?thesis using r z by simp
    next
      case nz: False
      then have e: "findNext n a (v + 1) = Some nv"
        using "1.prems" True g by (simp add: findNext.simps [of n a v])
      from "1.IH" [OF True g nz e]
      have ih: "\<forall>w. v + 1 \<le> w \<and> w < nv \<longrightarrow> 1 \<le> w \<and> w \<le> int (length a) \<and> a ! nat (w - 1) \<noteq> 0"
        "nv \<le> n \<longrightarrow> 1 \<le> nv \<and> nv \<le> int (length a) \<and> a ! nat (nv - 1) = 0"
        by simp_all
      have "\<forall>w. v \<le> w \<and> w < nv \<longrightarrow> 1 \<le> w \<and> w \<le> int (length a) \<and> a ! nat (w - 1) \<noteq> 0"
      proof (intro allI impI)
        fix w assume "v \<le> w \<and> w < nv"
        then have "w = v \<or> (v + 1 \<le> w \<and> w < nv)" by auto
        then show "1 \<le> w \<and> w \<le> int (length a) \<and> a ! nat (w - 1) \<noteq> 0"
          using r nz ih(1) by auto
      qed
      then show ?thesis using ih(2) by simp
    qed
  qed
qed

lemma extends_refl: "extends a a"
  by (simp add: extends_def)

lemma extends_update_zero:
  "extends b a \<Longrightarrow> a ! k = 0 \<Longrightarrow> extends (b[k := x]) a"
  unfolding extends_def by (metis length_list_update nth_list_update_neq)

lemma vec_set_Some:
  "vec_set a i x = Some a' \<Longrightarrow> 0 \<le> i \<and> nat i < length a \<and> a' = a[nat i := x]"
  by (auto simp: vec_set_def split: if_splits)

lemma pureLoop_extends:
  assumes "pureLoop ps a saved = Some (a', saved')"
  shows "extends a' a"
  using assms
proof (induction ps arbitrary: a saved)
  case Nil
  then show ?case by (simp add: extends_refl)
next
  case (Cons l ps)
  from Cons.prems obtain val where g: "vec_get a (\<bar>l\<bar> - 1) = Some val"
    by (cases "vec_get a (\<bar>l\<bar> - 1)") simp_all
  note r = vec_get_Some [OF g]
  show ?case
  proof (cases "val = 0")
    case False
    then have "pureLoop ps a saved = Some (a', saved')" using Cons.prems g by simp
    then show ?thesis using Cons.IH by blast
  next
    case True
    have s: "vec_set a (\<bar>l\<bar> - 1) (if l > 0 then 1 else - 1) = Some (assign a l)"
      using r by (simp add: vec_set_assign)
    have "pureLoop ps (assign a l) (saved @ [(\<bar>l\<bar> - 1, 0)]) = Some (a', saved')"
      using Cons.prems g True s by simp
    then have "extends a' (assign a l)" using Cons.IH by blast
    moreover have "extends (assign a l) a"
      using True r unfolding assign_def varValue_def by (simp add: extends_update)
    ultimately show ?thesis by (rule extends_trans)
  qed
qed

lemma restore_extends:
  assumes "tracked a0 a2 s2" and "extends a7 a2" and "restore s2 a7 = Some a'"
  shows "extends a' a0"
proof -
  have len: "length a2 = length a0" "length a7 = length a2"
    using assms(1,2) by (simp_all add: tracked_def extends_def)
  have "\<forall>(i, v) \<in> set s2. 0 \<le> i \<and> i < int (length a7) \<and> v = 0"
    using assms(1) len by (auto simp: tracked_def)
  from restore_nth [OF this] assms(3)
  have r: "length a' = length a7"
    "\<forall>j < length a7. a' ! j = (if int j \<in> fst ` set s2 then 0 else a7 ! j)"
    by auto
  have e20: "extends a2 a0" using assms(1) by (rule tracked_extends)
  show ?thesis
    unfolding extends_def
  proof (intro conjI allI impI)
    show "length a' = length a0" using r(1) len by simp
  next
    fix j assume j: "j < length a0" and nz: "a0 ! j \<noteq> 0"
    have "int j \<notin> fst ` set s2"
    proof
      assume "int j \<in> fst ` set s2"
      then obtain v where "(int j, v) \<in> set s2" by auto
      with assms(1) have "a0 ! nat (int j) = 0" unfolding tracked_def by blast
      then show False using nz by simp
    qed
    then have "a' ! j = a7 ! j" using r(2) j len by simp
    moreover have "a2 ! j = a0 ! j" using e20 j nz by (simp add: extends_def)
    moreover have "a7 ! j = a2 ! j" using assms(2) j nz len \<open>a2 ! j = a0 ! j\<close>
      by (simp add: extends_def)
    ultimately show "a' ! j = a0 ! j" by simp
  qed
qed

lemma solve_extends:
  assumes "solve p a i = Some (b, a')"
  shows "extends a' a"
  using assms
proof (induction "nat (numVars p + 1 - i)" arbitrary: a i b a' rule: less_induct)
  case less
  from less.prems show ?case
  proof (cases rule: solve_phases)
    case conflict
    then show ?thesis by (simp add: extends_refl)
  next
    case (unit us)
    from unitLoop_frame [OF unit(3) tracked_refl] show ?thesis by (simp add: extends_refl)
  next
    case (search us a1 s1 ps a2 s2)
    from unitLoop_frame [OF search(3) tracked_refl] have tr1: "tracked a a1 s1" by simp
    have tr2: "tracked a a2 s2" using pureLoop_frame [OF search(5) tr1] .
    have e2: "extends a2 a" using tr2 by (rule tracked_extends)
    from search(6) show ?thesis
    proof (cases rule: solve_branches)
      case beyond
      then show ?thesis using e2 by simp
    next
      case (full nv)
      then show ?thesis using e2 by simp
    next
      case (first nv a3)
      have meas: "nat (numVars p + 1 - (nv + 1)) < nat (numVars p + 1 - i)"
        using findNext_ge [OF first(2)] first(3) by simp
      have z: "a2 ! nat (nv - 1) = 0" using findNext_Some [OF first(2)] first(3) by simp
      have a3: "a3 = a2[nat (nv - 1) := 1]" using vec_set_Some [OF first(4)] by simp
      have "extends a3 a2" using z a3 by (simp add: extends_update)
      moreover have "extends a' a3" using less.hyps [OF meas first(5)] .
      ultimately show ?thesis using e2 extends_trans by blast
    next
      case (second nv a3 a4 a5)
      have meas: "nat (numVars p + 1 - (nv + 1)) < nat (numVars p + 1 - i)"
        using findNext_ge [OF second(2)] second(3) by simp
      have z: "a2 ! nat (nv - 1) = 0" using findNext_Some [OF second(2)] second(3) by simp
      have a3: "a3 = a2[nat (nv - 1) := 1]" using vec_set_Some [OF second(4)] by simp
      have a5: "a5 = a4[nat (nv - 1) := - 1]" using vec_set_Some [OF second(6)] by simp
      have "extends a3 a2" using z a3 by (simp add: extends_update)
      moreover have "extends a4 a3" using less.hyps [OF meas second(5)] .
      ultimately have "extends a4 a2" using extends_trans by blast
      then have "extends a5 a2" using z a5 by (simp add: extends_update_zero)
      moreover have "extends a' a5" using less.hyps [OF meas second(7)] .
      ultimately show ?thesis using e2 extends_trans by blast
    next
      case (neither nv a3 a4 a5 a6 a7)
      have meas: "nat (numVars p + 1 - (nv + 1)) < nat (numVars p + 1 - i)"
        using findNext_ge [OF neither(2)] neither(3) by simp
      have z: "a2 ! nat (nv - 1) = 0" using findNext_Some [OF neither(2)] neither(3) by simp
      have a3: "a3 = a2[nat (nv - 1) := 1]" using vec_set_Some [OF neither(4)] by simp
      have a5: "a5 = a4[nat (nv - 1) := - 1]" using vec_set_Some [OF neither(6)] by simp
      have a7: "a7 = a6[nat (nv - 1) := 0]" using vec_set_Some [OF neither(8)] by simp
      have "extends a3 a2" using z a3 by (simp add: extends_update)
      moreover have "extends a4 a3" using less.hyps [OF meas neither(5)] .
      ultimately have "extends a4 a2" using extends_trans by blast
      then have "extends a5 a2" using z a5 by (simp add: extends_update_zero)
      moreover have "extends a6 a5" using less.hyps [OF meas neither(7)] .
      ultimately have "extends a6 a2" using extends_trans by blast
      then have "extends a7 a2" using z a7 by (simp add: extends_update_zero)
      then show ?thesis using restore_extends [OF tr2 _ neither(9)] by simp
    qed
  qed
qed

lemma decided_satisfies:
  assumes "findPureLiterals p a1 = Some ps" and "extends a2 a1"
    and "checkConflict p a2 = Some False"
    and "\<forall>v. 1 \<le> v \<and> v \<le> numVars p \<longrightarrow> a2 ! nat (v - 1) \<noteq> 0"
  shows "\<forall>c \<in> set (clauses p). \<exists>l \<in> set c. 1 \<le> \<bar>l\<bar> \<and> \<bar>l\<bar> \<le> int (length a2) \<and> satisfied a2 l"
proof
  fix c assume c: "c \<in> set (clauses p)"
  have len: "length a2 = length a1" using assms(2) by (simp add: extends_def)
  from findPureLiterals_scanned(2) [OF assms(1)] c
  consider (sat) l where "l \<in> set c" "1 \<le> \<bar>l\<bar>" "\<bar>l\<bar> \<le> int (length a1)" "satisfied a1 l"
    | (unsat) "\<forall>l \<in> set c. 1 \<le> \<bar>l\<bar> \<and> \<bar>l\<bar> \<le> int (length a1) \<and> (unassigned a1 l \<longrightarrow> \<bar>l\<bar> \<le> numVars p)"
    by blast
  then show "\<exists>l \<in> set c. 1 \<le> \<bar>l\<bar> \<and> \<bar>l\<bar> \<le> int (length a2) \<and> satisfied a2 l"
  proof cases
    case sat
    then have "satisfied a2 l" using extends_satisfied [OF assms(2)] by blast
    then show ?thesis using sat len by auto
  next
    case unsat
    have "clauseFalsified a2 c = Some False"
      using conflictIn_False assms(3) c unfolding checkConflict_def by blast
    from clauseFalsified_False [OF this] unsat len
    obtain l where l: "l \<in> set c" "1 \<le> \<bar>l\<bar>" "\<bar>l\<bar> \<le> int (length a2)" "\<not> falsified a2 l"
      by force
    have "\<not> unassigned a2 l"
    proof
      assume u: "unassigned a2 l"
      have "nat (\<bar>l\<bar> - 1) < length a1" using l(2,3) len by simp
      then have "a1 ! nat (\<bar>l\<bar> - 1) = 0"
        using assms(2) u unfolding extends_def unassigned_def varValue_def by metis
      then have "\<bar>l\<bar> \<le> numVars p" using unsat l(1) by (simp add: unassigned_def varValue_def)
      then have "a2 ! nat (\<bar>l\<bar> - 1) \<noteq> 0" using assms(4) l(2) by blast
      then show False using u by (simp add: unassigned_def varValue_def)
    qed
    then have "satisfied a2 l" using l(4) by (simp add: falsified_def)
    then show ?thesis using l by blast
  qed
qed

lemma solve_success_satisfies:
  assumes "solve p a i = Some (True, a')"
    and "\<forall>v. 1 \<le> v \<and> v < i \<and> v \<le> numVars p \<longrightarrow> a ! nat (v - 1) \<noteq> 0"
  shows "\<forall>c \<in> set (clauses p). \<exists>l \<in> set c. 1 \<le> \<bar>l\<bar> \<and> \<bar>l\<bar> \<le> int (length a') \<and> satisfied a' l"
  using assms
proof (induction "nat (numVars p + 1 - i)" arbitrary: a i a' rule: less_induct)
  case less
  from less.prems(1) show ?case
  proof (cases rule: solve_phases)
    case conflict
    then show ?thesis by simp
  next
    case (unit us)
    then show ?thesis by simp
  next
    case (search us a1 s1 ps a2 s2)
    from unitLoop_frame [OF search(3) tracked_refl] have tr1: "tracked a a1 s1" by simp
    have tr2: "tracked a a2 s2" using pureLoop_frame [OF search(5) tr1] .
    have e2: "extends a2 a" using tr2 by (rule tracked_extends)
    have e21: "extends a2 a1" using pureLoop_extends [OF search(5)] .
    have len: "length a1 = length a" "length a2 = length a"
      using tr1 tr2 by (simp_all add: tracked_def)
    have n: "numVars p \<le> int (length a)"
      using findPureLiterals_scanned(1) [OF search(4)] len by simp
    have before: "a2 ! nat (v - 1) \<noteq> 0" if "1 \<le> v" "v < i" "v \<le> numVars p" for v
    proof -
      have "a ! nat (v - 1) \<noteq> 0" using less.prems(2) that by blast
      moreover have "nat (v - 1) < length a" using that n by simp
      ultimately show ?thesis using e2 by (simp add: extends_def)
    qed
    have step: "\<forall>v. 1 \<le> v \<and> v < nv + 1 \<and> v \<le> numVars p \<longrightarrow> b ! nat (v - 1) \<noteq> 0"
      if "findNext (numVars p) a2 i = Some nv" "\<not> nv > numVars p" "extends b a2"
        "b ! nat (nv - 1) \<noteq> 0" for nv b
    proof (intro allI impI)
      fix v assume v: "1 \<le> v \<and> v < nv + 1 \<and> v \<le> numVars p"
      have vl: "nat (v - 1) < length a2" using v n len by linarith
      consider "v < i" | "i \<le> v" "v < nv" | "v = nv" using v by linarith
      then show "b ! nat (v - 1) \<noteq> 0"
      proof cases
        case 1
        then have "a2 ! nat (v - 1) \<noteq> 0" using before v by simp
        then show ?thesis using that(3) vl by (simp add: extends_def)
      next
        case 2
        then have "a2 ! nat (v - 1) \<noteq> 0" using findNext_Some [OF that(1)] by simp
        then show ?thesis using that(3) vl by (simp add: extends_def)
      next
        case 3
        then show ?thesis using that(4) by simp
      qed
    qed
    from search(6) show ?thesis
    proof (cases rule: solve_branches)
      case beyond
      then have "\<forall>v. 1 \<le> v \<and> v \<le> numVars p \<longrightarrow> a2 ! nat (v - 1) \<noteq> 0"
        using before by simp
      then show ?thesis using decided_satisfies [OF search(4) e21] beyond by simp
    next
      case (full nv)
      have "a2 ! nat (v - 1) \<noteq> 0" if "1 \<le> v" "v \<le> numVars p" for v
      proof (cases "v < i")
        case True
        then show ?thesis using before that by simp
      next
        case False
        then show ?thesis using findNext_Some [OF full(2)] full(3) that by simp
      qed
      then show ?thesis using decided_satisfies [OF search(4) e21] full by simp
    next
      case (first nv a3)
      have meas: "nat (numVars p + 1 - (nv + 1)) < nat (numVars p + 1 - i)"
        using findNext_ge [OF first(2)] first(3) by simp
      have z: "a2 ! nat (nv - 1) = 0" using findNext_Some [OF first(2)] first(3) by simp
      have a3: "a3 = a2[nat (nv - 1) := 1]" "nat (nv - 1) < length a2"
        using vec_set_Some [OF first(4)] by simp_all
      have "extends a3 a2" using z a3 by (simp add: extends_update)
      moreover have "a3 ! nat (nv - 1) \<noteq> 0" using a3 by simp
      ultimately have "\<forall>v. 1 \<le> v \<and> v < nv + 1 \<and> v \<le> numVars p \<longrightarrow> a3 ! nat (v - 1) \<noteq> 0"
        using step [OF first(2,3)] by blast
      then show ?thesis using less.hyps [OF meas first(5)] by blast
    next
      case (second nv a3 a4 a5)
      have meas: "nat (numVars p + 1 - (nv + 1)) < nat (numVars p + 1 - i)"
        using findNext_ge [OF second(2)] second(3) by simp
      have z: "a2 ! nat (nv - 1) = 0" using findNext_Some [OF second(2)] second(3) by simp
      have a3: "a3 = a2[nat (nv - 1) := 1]" using vec_set_Some [OF second(4)] by simp
      have a5: "a5 = a4[nat (nv - 1) := - 1]" "nat (nv - 1) < length a4"
        using vec_set_Some [OF second(6)] by simp_all
      have "extends a3 a2" using z a3 by (simp add: extends_update)
      moreover have "extends a4 a3" using solve_extends [OF second(5)] .
      ultimately have "extends a4 a2" using extends_trans by blast
      then have "extends a5 a2" using z a5 by (simp add: extends_update_zero)
      moreover have "a5 ! nat (nv - 1) \<noteq> 0" using a5 by simp
      ultimately have "\<forall>v. 1 \<le> v \<and> v < nv + 1 \<and> v \<le> numVars p \<longrightarrow> a5 ! nat (v - 1) \<noteq> 0"
        using step [OF second(2,3)] by blast
      then show ?thesis using less.hyps [OF meas second(7)] by blast
    next
      case (neither nv a3 a4 a5 a6 a7)
      then show ?thesis by simp
    qed
  qed
qed

text \<open>
  Claim C2 (soundness of the model produced). Whenever \<open>solve\<close>, called with start index
  \<open>1\<close> on the assignment with every variable unassigned, returns true, every stored
  clause contains a literal that names an entry of the assignment left behind and that
  this assignment satisfies.
\<close>

theorem solve_sound:
  assumes "solve p (allUnassigned p) 1 = Some (True, a')"
  shows "\<forall>c \<in> set (clauses p). \<exists>l \<in> set c. 1 \<le> \<bar>l\<bar> \<and> \<bar>l\<bar> \<le> int (length a') \<and> satisfied a' l"
  using solve_success_satisfies [OF assms] by simp

theorem solve_sound_witness:
  "solve \<lparr>numVars = 3, clauses = [[- 3, 1], [- 1, 2, 3]]\<rparr>
     (allUnassigned \<lparr>numVars = 3, clauses = [[- 3, 1], [- 1, 2, 3]]\<rparr>) 1 = Some (True, [1, 1, 1]) \<and>
   (\<exists>l \<in> set [- 3, 1]. satisfied [1, 1, 1] l) \<and> (\<exists>l \<in> set [- 1, 2, 3]. satisfied [1, 1, 1] l)"
proof -
  let ?p = "\<lparr>numVars = 3, clauses = [[- 3, 1], [- 1, 2, 3]]\<rparr>"
  have e: "solve ?p (allUnassigned ?p) 1 = Some (True, [1, 1, 1])" by code_simp
  from solve_sound [OF e]
  have "\<forall>c \<in> set (clauses ?p). \<exists>l \<in> set c. 1 \<le> \<bar>l\<bar> \<and> \<bar>l\<bar> \<le> int (length [1, 1, 1 :: int]) \<and> satisfied [1, 1, 1] l" .
  then have "(\<exists>l \<in> set [- 3, 1]. satisfied [1, 1, 1] l) \<and> (\<exists>l \<in> set [- 1, 2, 3]. satisfied [1, 1, 1] l)"
    by auto
  with e show ?thesis by blast
qed

section \<open>Termination\<close>

lemma calls_index:
  assumes "calls (p, a, i) (p', a', i')"
  shows "p' = p \<and> 1 \<le> i \<and> i < i' \<and> i' \<le> numVars p + 1"
  using assms solve_rel_index unfolding calls_def by blast

lemma calls_chain:
  assumes "(calls ^^ k) (p, a, i) (p', a', i')"
  shows "p' = p \<and> i + int k \<le> i' \<and> (0 < k \<longrightarrow> 1 \<le> i \<and> i' \<le> numVars p + 1)"
  using assms
proof (induction k arbitrary: p' a' i')
  case 0
  then show ?case by simp
next
  case (Suc k)
  from Suc.prems obtain y where y: "(calls ^^ k) (p, a, i) y" "calls y (p', a', i')" by auto
  obtain q b j where yq: "y = (q, b, j)" by (cases y)
  from Suc.IH [of q b j] y(1) yq
  have 1: "q = p" "i + int k \<le> j" "0 < k \<longrightarrow> 1 \<le> i" by auto
  from calls_index [of q b j p' a' i'] y(2) yq
  have 2: "p' = q" "1 \<le> j" "j < i'" "i' \<le> numVars q + 1" by auto
  have "1 \<le> i"
  proof (cases k)
    case 0
    then have "(p, a, i) = (q, b, j)" using y(1) yq by simp
    then show ?thesis using 2(2) by simp
  next
    case (Suc m)
    then show ?thesis using 1(3) by simp
  qed
  then show ?case using 1 2 by auto
qed

lemma solve_rel_wfp: "wfp solve_rel"
proof (rule wfp_if_convertible_to_nat)
  fix y x :: "SATproblem \<times> int list \<times> int"
  assume r: "solve_rel y x"
  obtain p' a' i' where y: "y = (p', a', i')" by (cases y)
  obtain p a i where x: "x = (p, a, i)" by (cases x)
  from solve_rel_index [of p' a' i' p a i] r x y
  show "(\<lambda>(p, a, i). nat (numVars p + 1 - i)) y < (\<lambda>(p, a, i). nat (numVars p + 1 - i)) x"
    by auto
qed

lemma calls_first:
  assumes "checkConflict p a = Some False" and "findUnitClauses p a = Some us"
    and "unitLoop p us a [] = Some (Inr (a1, s1))" and "findPureLiterals p a1 = Some ps"
    and "pureLoop ps a1 s1 = Some (a2, s2)" and "\<not> numVars p < i"
    and "findNext (numVars p) a2 i = Some nv" and "\<not> numVars p < nv"
    and "vec_set a2 (nv - 1) 1 = Some a3"
  shows "calls (p, a, i) (p, a3, nv + 1)"
  unfolding calls_def
  by (rule solve_rel.intros(1) [OF assms(1) _ assms(2) assms(3) refl refl assms(4) assms(5)
        refl assms(6) assms(7) assms(8) assms(9)]) simp

lemma calls_example:
  "calls (\<lparr>numVars = 2, clauses = [[1, 2], [1, - 2], [- 1, 2], [- 1, - 2]]\<rparr>, [0, 0], 1)
         (\<lparr>numVars = 2, clauses = [[1, 2], [1, - 2], [- 1, 2], [- 1, - 2]]\<rparr>, [1, 0], 2)"
proof -
  let ?p = "\<lparr>numVars = 2, clauses = [[1, 2], [1, - 2], [- 1, 2], [- 1, - 2]]\<rparr>"
  have "calls (?p, [0, 0], 1) (?p, [1, 0], 1 + 1)"
  proof (rule calls_first)
    show "checkConflict ?p [0, 0] = Some False" by code_simp
    show "findUnitClauses ?p [0, 0] = Some []" by code_simp
    show "unitLoop ?p [] [0, 0] [] = Some (Inr ([0, 0], []))" by simp
    show "findPureLiterals ?p [0, 0] = Some []" by code_simp
    show "pureLoop [] [0, 0] [] = Some ([0, 0], [])" by simp
    show "\<not> numVars ?p < 1" by simp
    show "findNext (numVars ?p) [0, 0] 1 = Some 1" by code_simp
    show "\<not> numVars ?p < 1" by simp
    show "vec_set [0, 0] (1 - 1) 1 = Some [1, 0]" by (simp add: vec_set_def)
  qed
  then show ?thesis by simp
qed

text \<open>
  Claim C9 (termination of the driver). For every problem, assignment and start index
  the recursion of \<open>solve\<close> terminates: the call is in the accessible part of the
  call relation. Each recursive call it makes has a strictly larger start index, at most
  \<open>numVars + 1\<close>, so no chain of nested recursive calls is longer than \<open>numVars\<close>.
\<close>

theorem solve_terminates:
  "solve_dom (p, a, i) \<and>
   (\<forall>p' a' i'. calls (p, a, i) (p', a', i') \<longrightarrow> p' = p \<and> i < i' \<and> i' \<le> numVars p + 1) \<and>
   (\<forall>k y. (calls ^^ k) (p, a, i) y \<longrightarrow> int k \<le> max 0 (numVars p))"
proof (intro conjI allI impI)
  show "solve_dom (p, a, i)" using solve_rel_wfp by (rule accp_wfpD)
next
  fix p' a' i' assume "calls (p, a, i) (p', a', i')"
  then show "p' = p" "i < i'" "i' \<le> numVars p + 1" using calls_index by blast+
next
  fix k y assume c: "(calls ^^ k) (p, a, i) y"
  obtain p' a' i' where y: "y = (p', a', i')" by (cases y)
  from calls_chain [of k p a i p' a' i'] c y
  have "i + int k \<le> i'" "0 < k \<longrightarrow> 1 \<le> i \<and> i' \<le> numVars p + 1" by auto
  then show "int k \<le> max 0 (numVars p)" by (cases k) auto
qed

theorem solve_terminates_witness:
  "calls (\<lparr>numVars = 2, clauses = [[1, 2], [1, - 2], [- 1, 2], [- 1, - 2]]\<rparr>, [0, 0], 1)
         (\<lparr>numVars = 2, clauses = [[1, 2], [1, - 2], [- 1, 2], [- 1, - 2]]\<rparr>, [1, 0], 2) \<and>
   (calls ^^ 1) (\<lparr>numVars = 2, clauses = [[1, 2], [1, - 2], [- 1, 2], [- 1, - 2]]\<rparr>, [0, 0], 1)
         (\<lparr>numVars = 2, clauses = [[1, 2], [1, - 2], [- 1, 2], [- 1, - 2]]\<rparr>, [1, 0], 2) \<and>
   solve_dom (\<lparr>numVars = 2, clauses = [[1, 2], [1, - 2], [- 1, 2], [- 1, - 2]]\<rparr>, [0, 0], 1) \<and>
   (1 :: int) < 2 \<and>
   (2 :: int) \<le> numVars \<lparr>numVars = 2, clauses = [[1, 2], [1, - 2], [- 1, 2], [- 1, - 2]]\<rparr> + 1 \<and>
   int 1 \<le> max 0 (numVars \<lparr>numVars = 2, clauses = [[1, 2], [1, - 2], [- 1, 2], [- 1, - 2]]\<rparr>)"
proof -
  let ?p = "\<lparr>numVars = 2, clauses = [[1, 2], [1, - 2], [- 1, 2], [- 1, - 2]]\<rparr>"
  note t = solve_terminates [of ?p "[0, 0]" 1]
  have c: "calls (?p, [0, 0], 1) (?p, [1, 0], 2)" by (rule calls_example)
  then have c1: "(calls ^^ 1) (?p, [0, 0], 1) (?p, [1, 0], 2)" by auto
  from t have d: "solve_dom (?p, [0, 0], 1)" by blast
  from t c have "(1 :: int) < 2 \<and> (2 :: int) \<le> numVars ?p + 1" by blast
  moreover from t c1 have "int 1 \<le> max 0 (numVars ?p)" by blast
  ultimately show ?thesis using c c1 d by blast
qed

section \<open>Parsing and the exit status\<close>

text \<open>
  Claim C3 (empty clauses are handled). The claim fails on the code: for a clause line
  that holds only the terminating \<open>0\<close> the tautology scan of \<open>parseDIMACS\<close> reads
  \<open>clause[0]\<close> and \<open>clause[1]\<close> of an empty vector, so the execution has no defined
  result: neither a stored clause nor a verdict.
\<close>

theorem empty_clause_out_of_bounds:
  "isTautology [] = None \<and>
   parseLine ''0'' (problem, True) = None \<and>
   parseDIMACS [''p cnf 1 1'', ''0''] = None \<and>
   main None [''p cnf 1 1'', ''0''] = None"
proof -
  have t: "isTautology [] = None"
    by (simp add: isTautology_def tautologyScan.simps vec_get_def)
  have r: "readClause ''0'' nv [] = Some (nv, [])" for nv
    by (subst readClause.simps) (simp add: readInt_def isspace_def isdigit_def digitVal_def)
  have l: "parseLine ''0'' (problem, True) = None" for problem
    using t r by simp
  have d: "parseDIMACS [''p cnf 1 1'', ''0''] = None" by code_simp
  have m: "main None [''p cnf 1 1'', ''0''] = None"
    by (simp add: main_def mainBody_def d)
  show ?thesis using t l d m by blast
qed

text \<open>
  Claim C4 (tautology elimination). The claim fails on the code: the scan compares only
  neighbours of the sorted clause, so the raw clause \<open>-2 1 2\<close> is stored although it
  holds variable \<open>2\<close> in both polarities.
\<close>

theorem tautology_not_detected:
  "isTautology [- 2, 1, 2] = Some False \<and>
   parseDIMACS [''p cnf 2 1'', ''-2 1 2 0''] = Some \<lparr>numVars = 2, clauses = [[- 2, 1, 2]]\<rparr> \<and>
   2 \<in> set [- 2, 1, 2 :: int] \<and> - 2 \<in> set [- 2, 1, 2 :: int]"
proof -
  have "isTautology [- 2, 1, 2] = Some False" by code_simp
  moreover have "parseDIMACS [''p cnf 2 1'', ''-2 1 2 0''] = Some \<lparr>numVars = 2, clauses = [[- 2, 1, 2]]\<rparr>"
    by code_simp
  ultimately show ?thesis by simp
qed

text \<open>
  Claim C6 (error contract). The claim fails on the code: when the \<open>try\<close> block throws,
  \<open>main\<close> prints the error line and its exit status is \<open>0\<close>, whereas the path for a
  problem without variables prints the same line and exits with status \<open>1\<close>.
\<close>

theorem exception_exit_status:
  "main (Some e) input = Some (ERROR, 0) \<and> main None [] = Some (ERROR, 1)"
proof -
  have "main None [] = Some (ERROR, 1)" by code_simp
  then show ?thesis by (simp add: main_def)
qed

end
